theory Spec2Isabelle
  imports Main
begin

unbundle bit_operations_syntax

section \<open>The Python driver: input validation and prime search\<close>

text \<open>
  The class \<open>ZKRSAVerifier\<close> keeps three fields that the properties below depend on.
  \<open>bit_length\<close> is taken as a natural number; \<open>min_value = 2**(bit_length - 1)\<close> and
  \<open>max_value = 2**bit_length - 1\<close>. (For \<open>bit_length = 0\<close> Python computes the float
  \<open>0.5\<close> and the integer \<open>0\<close>; the model gives \<open>1\<close> and \<open>0\<close>, which bound the same, empty,
  set of integers.)
\<close>

record ZKRSAVerifier =
  bit_length :: nat
  min_value :: int
  max_value :: int

definition init :: "nat \<Rightarrow> ZKRSAVerifier" where
  "init bl = \<lparr> bit_length = bl, min_value = 2 ^ (bl - 1), max_value = 2 ^ bl - 1 \<rparr>"

datatype error = ValueError string | OverflowError

subsection \<open>\<open>int(n ** 0.5)\<close>\<close>

text \<open>
  \<open>n ** 0.5\<close> first converts the integer \<open>n\<close> to a double. The conversion rounds to
  nearest-even and raises \<open>OverflowError\<close> when the result would exceed the largest
  double, that is from \<open>2^1024 - 2^970\<close> on. Below that bound the square root is
  modelled by the integer square root: for \<open>n < 2^52\<close> (every operand this program is
  meant for is below \<open>2^16\<close>) the double is exact and the truncated, correctly rounded
  root is the integer root.
\<close>

function isqrt :: "int \<Rightarrow> int" where
  "isqrt n = (if n < 2 then (if n < 1 then 0 else 1)
              else (let r = 2 * isqrt (n div 4)
                    in if (r + 1) * (r + 1) \<le> n then r + 1 else r))"
  by pat_completeness auto
termination
  by (relation "measure nat") auto

declare isqrt.simps [simp del]

definition float_overflow :: int where
  "float_overflow = 2 ^ 1024 - 2 ^ 970"

definition int_sqrt_float :: "int \<Rightarrow> error + int" where
  "int_sqrt_float n = (if float_overflow \<le> n then Inl OverflowError else Inr (isqrt n))"

subsection \<open>\<open>_is_prime\<close>\<close>

text \<open>\<open>range(3, stop, 2)\<close> as a list.\<close>

definition range3 :: "int \<Rightarrow> int list" where
  "range3 stop = map (\<lambda>k. 3 + 2 * int k) [0..<nat ((stop - 3 + 1) div 2)]"

text \<open>The \<open>for\<close> loop of \<open>_is_prime\<close>: return \<open>False\<close> at the first divisor.\<close>

fun trial_loop :: "int \<Rightarrow> int list \<Rightarrow> bool" where
  "trial_loop n [] = True"
| "trial_loop n (i # is) = (if n mod i = 0 then False else trial_loop n is)"

definition is_prime :: "int \<Rightarrow> error + bool" where
  "is_prime n =
     (if n < 2 then Inr False
      else if n = 2 then Inr True
      else if n mod 2 = 0 then Inr False
      else (case int_sqrt_float n of
              Inl e \<Rightarrow> Inl e
            | Inr r \<Rightarrow> Inr (trial_loop n (range3 (r + 1)))))"

subsection \<open>\<open>find_16bit_primes\<close>\<close>

text \<open>
  The \<open>while\<close> loop with its state \<open>(primes, n)\<close>. An exception of \<open>_is_prime\<close>
  leaves the loop.
\<close>

function find_loop :: "ZKRSAVerifier \<Rightarrow> int \<Rightarrow> int list \<Rightarrow> int \<Rightarrow> error + int list" where
  "find_loop self count ps n =
     (if int (length ps) < count \<and> n \<le> max_value self
      then (case is_prime n of
              Inl e \<Rightarrow> Inl e
            | Inr b \<Rightarrow> find_loop self count (if b then ps @ [n] else ps)
                        (n + (if n > 2 then 2 else 1)))
      else Inr ps)"
  by pat_completeness auto
termination
  by (relation "measure (\<lambda>(self, count, ps, n). nat (max_value self + 1 - n))") auto

declare find_loop.simps [simp del]

definition find_16bit_primes :: "ZKRSAVerifier \<Rightarrow> int \<Rightarrow> error + int list" where
  "find_16bit_primes self count = find_loop self count [] (min_value self)"

subsection \<open>The validation prefix of \<open>generate_proof\<close>\<close>

text \<open>\<open>str\<close> of a natural number, for the f-strings.\<close>

definition digit_char :: "nat \<Rightarrow> char" where
  "digit_char d = char_of (48 + d)"

function str_nat :: "nat \<Rightarrow> string" where
  "str_nat n = (if n < 10 then [digit_char n] else str_nat (n div 10) @ [digit_char (n mod 10)])"
  by pat_completeness auto
termination
  by (relation "measure id") auto

declare str_nat.simps [simp del]

text \<open>
  \<open>generate_proof\<close> up to the point where it writes \<open>input.json\<close> and starts the
  external witness generator: \<open>Inl\<close> is the exception raised, \<open>Inr (p, q)\<close> the
  input handed on to witness computation. \<open>or\<close> is short-circuit: \<open>_is_prime(q)\<close>
  runs only when \<open>_is_prime(p)\<close> returned \<open>True\<close>.
\<close>

definition generate_proof_validate :: "ZKRSAVerifier \<Rightarrow> int \<Rightarrow> int \<Rightarrow> error + int \<times> int" where
  "generate_proof_validate self p q =
     (case is_prime p of
        Inl e \<Rightarrow> Inl e
      | Inr pp \<Rightarrow>
          if \<not> pp then Inl (ValueError ''Both p and q must be prime'')
          else (case is_prime q of
                  Inl e \<Rightarrow> Inl e
                | Inr pq \<Rightarrow>
                    if \<not> pq then Inl (ValueError ''Both p and q must be prime'')
                    else if p = q then Inl (ValueError ''p and q must be different'')
                    else if \<not> (min_value self \<le> p \<and> p \<le> max_value self)
                      then Inl (ValueError (''p must be a '' @ str_nat (bit_length self) @ ''-bit number''))
                    else if \<not> (min_value self \<le> q \<and> q \<le> max_value self)
                      then Inl (ValueError (''q must be a '' @ str_nat (bit_length self) @ ''-bit number''))
                    else Inr (p, q)))"

section \<open>The circuit written by \<open>create_circuits\<close>\<close>

text \<open>
  \<open>create_circuits\<close> writes a circom program and \<open>compile_circuits\<close> compiles it with
  \<open>circom ... --r1cs --wasm --sym\<close>, that is over circom's default prime field. A signal
  holds a field element; here it is an integer standing for its residue class modulo the
  field modulus \<open>P\<close>, which every definition takes as its first argument. A constraint
  \<open>a === b\<close> is the congruence \<open>feq P a b\<close>; \<open>x <== e\<close> is the constraint \<open>x === e\<close>
  together with the witness rule \<open>x := e\<close>; \<open>x <-- e\<close> is a witness rule alone.
  For each template \<open>T\<close> there is a record \<open>T\<close> of its signals and components, the
  predicate \<open>T_ok\<close> (all constraints hold) and the function \<open>T_wit\<close> (the witness the
  template's assignments compute from its inputs).
\<close>

definition feq :: "int \<Rightarrow> int \<Rightarrow> int \<Rightarrow> bool" where
  "feq P a b \<longleftrightarrow> a mod P = b mod P"

text \<open>The modulus of circom's default curve bn128.\<close>

definition bn128 :: int where
  "bn128 = 21888242871839275222246405745257275088548364400416034343698204186575808495617"

text \<open>
  Field division \<open>1/x\<close> is a primitive of circom; it is modelled by the extended
  Euclidean algorithm: \<open>egcd a b = (s, t)\<close> with \<open>s * a + t * b = gcd a b\<close>.
\<close>

function egcd :: "int \<Rightarrow> int \<Rightarrow> int \<times> int" where
  "egcd a b = (if b \<le> 0 then (1, 0)
               else (let (s, t) = egcd b (a mod b) in (t, s - t * (a div b))))"
  by pat_completeness auto
termination
  by (relation "measure (\<lambda>(a, b). nat b)") auto

declare egcd.simps [simp del]

definition finv :: "int \<Rightarrow> int \<Rightarrow> int" where
  "finv P x = fst (egcd (x mod P) P) mod P"

subsection \<open>IsZero\<close>

record IsZero =
  iz_in :: int
  iz_inv :: int
  iz_out :: int

definition IsZero_ok :: "int \<Rightarrow> IsZero \<Rightarrow> bool" where
  "IsZero_ok P s \<longleftrightarrow>
     feq P (iz_out s) (- iz_in s * iz_inv s + 1) \<and>
     feq P (iz_in s * iz_out s) 0"

definition IsZero_wit :: "int \<Rightarrow> int \<Rightarrow> IsZero" where
  "IsZero_wit P x =
     (let inv = (if x \<noteq> 0 then finv P x else 0)
      in \<lparr> iz_in = x, iz_inv = inv, iz_out = (- x * inv + 1) mod P \<rparr>)"

subsection \<open>ModulusCheck\<close>

text \<open>The template parameter \<open>n\<close> of \<open>ModulusCheck(n)\<close> is not used by its body.\<close>

record ModulusCheck =
  mc_value :: int
  mc_modulus :: int
  mc_quotient :: int
  mc_remainder :: int
  mc_isZero :: IsZero
  mc_isNotDivisible :: int

definition ModulusCheck_ok :: "int \<Rightarrow> ModulusCheck \<Rightarrow> bool" where
  "ModulusCheck_ok P s \<longleftrightarrow>
     feq P (mc_value s) (mc_quotient s * mc_modulus s + mc_remainder s) \<and>
     IsZero_ok P (mc_isZero s) \<and>
     feq P (iz_in (mc_isZero s)) (mc_remainder s) \<and>
     feq P (mc_isNotDivisible s) (1 - iz_out (mc_isZero s))"

definition ModulusCheck_wit :: "int \<Rightarrow> int \<Rightarrow> int \<Rightarrow> ModulusCheck" where
  "ModulusCheck_wit P v m =
     (let quo = v div m; r = v mod m; z = IsZero_wit P r
      in \<lparr> mc_value = v, mc_modulus = m, mc_quotient = quo, mc_remainder = r,
           mc_isZero = z, mc_isNotDivisible = (1 - iz_out z) mod P \<rparr>)"

subsection \<open>SimplePrimalityTest\<close>

definition primes :: "int list" where
  "primes = [2,3,5,7,11,13,17,19,23,29,31,37,41,43,47,53,59,61,67,71,73,79,83,89,97,
             101,103,107,109,113,127,131,137,139,149,151,157,163,167,173,179,181,191,
             193,197,199,211,223,227,229,233,239,241,251]"

record SimplePrimalityTest =
  spt_n :: int
  spt_modChecks :: "ModulusCheck list"
  spt_checks :: "int list"
  spt_accumulated :: "int list"
  spt_isPrime :: int

definition SimplePrimalityTest_ok :: "int \<Rightarrow> SimplePrimalityTest \<Rightarrow> bool" where
  "SimplePrimalityTest_ok P s \<longleftrightarrow>
     length (spt_modChecks s) = 54 \<and> length (spt_checks s) = 54 \<and>
     length (spt_accumulated s) = 54 \<and>
     (\<forall>i\<in>{0..<54}.
        ModulusCheck_ok P (spt_modChecks s ! i) \<and>
        feq P (mc_value (spt_modChecks s ! i)) (spt_n s) \<and>
        feq P (mc_modulus (spt_modChecks s ! i)) (primes ! i) \<and>
        feq P (spt_checks s ! i) (mc_isNotDivisible (spt_modChecks s ! i))) \<and>
     feq P (spt_accumulated s ! 0) (spt_checks s ! 0) \<and>
     (\<forall>i\<in>{1..<54}.
        feq P (spt_accumulated s ! i) (spt_accumulated s ! (i - 1) * spt_checks s ! i)) \<and>
     feq P (spt_isPrime s) (spt_accumulated s ! 53)"

text \<open>The second loop: \<open>accumulated[i] <== accumulated[i-1] * checks[i]\<close>.\<close>

fun accumulate :: "int \<Rightarrow> int \<Rightarrow> int list \<Rightarrow> int list" where
  "accumulate P prev [] = []"
| "accumulate P prev (c # cs) = (let a = (prev * c) mod P in a # accumulate P a cs)"

definition SimplePrimalityTest_wit :: "int \<Rightarrow> int \<Rightarrow> SimplePrimalityTest" where
  "SimplePrimalityTest_wit P n =
     (let mcs = map (\<lambda>t. ModulusCheck_wit P n t) primes;
          checks = map mc_isNotDivisible mcs;
          acc = (case checks of [] \<Rightarrow> [] | c # cs \<Rightarrow> c # accumulate P c cs)
      in \<lparr> spt_n = n, spt_modChecks = mcs, spt_checks = checks, spt_accumulated = acc,
           spt_isPrime = acc ! 53 \<rparr>)"

subsection \<open>Bits2Num and Num2Bits\<close>

record Bits2Num =
  b2n_in :: "int list"
  b2n_out :: int

text \<open>The loop of \<open>Bits2Num\<close> with its variables \<open>lc\<close> and \<open>e2\<close>, computed in the field.\<close>

fun Bits2Num_lc :: "int \<Rightarrow> int \<Rightarrow> int \<Rightarrow> int list \<Rightarrow> int" where
  "Bits2Num_lc P lc e2 [] = lc"
| "Bits2Num_lc P lc e2 (b # bs) = Bits2Num_lc P ((lc + b * e2) mod P) ((e2 * 2) mod P) bs"

definition Bits2Num_ok :: "int \<Rightarrow> nat \<Rightarrow> Bits2Num \<Rightarrow> bool" where
  "Bits2Num_ok P n s \<longleftrightarrow>
     length (b2n_in s) = n \<and> feq P (b2n_out s) (Bits2Num_lc P 0 1 (b2n_in s))"

definition Bits2Num_wit :: "int \<Rightarrow> int list \<Rightarrow> Bits2Num" where
  "Bits2Num_wit P ins = \<lparr> b2n_in = ins, b2n_out = Bits2Num_lc P 0 1 ins mod P \<rparr>"

record Num2Bits =
  n2b_in :: int
  n2b_out :: "int list"
  n2b_n2b :: Bits2Num

definition Num2Bits_ok :: "int \<Rightarrow> nat \<Rightarrow> Num2Bits \<Rightarrow> bool" where
  "Num2Bits_ok P n s \<longleftrightarrow>
     length (n2b_out s) = n \<and>
     (\<forall>b\<in>set (n2b_out s). feq P (b * (b - 1)) 0) \<and>
     Bits2Num_ok P n (n2b_n2b s) \<and>
     (\<forall>i\<in>{0..<n}. feq P (b2n_in (n2b_n2b s) ! i) (n2b_out s ! i)) \<and>
     feq P (b2n_out (n2b_n2b s)) (n2b_in s)"

definition Num2Bits_wit :: "int \<Rightarrow> nat \<Rightarrow> int \<Rightarrow> Num2Bits" where
  "Num2Bits_wit P n x =
     (let out = map (\<lambda>i. drop_bit i x AND 1) [0..<n]
      in \<lparr> n2b_in = x, n2b_out = out, n2b_n2b = Bits2Num_wit P out \<rparr>)"

subsection \<open>Comparators\<close>

record LessThan =
  lt_in0 :: int
  lt_in1 :: int
  lt_n2b :: Num2Bits
  lt_out :: int

definition LessThan_ok :: "int \<Rightarrow> nat \<Rightarrow> LessThan \<Rightarrow> bool" where
  "LessThan_ok P n s \<longleftrightarrow>
     Num2Bits_ok P (n + 1) (lt_n2b s) \<and>
     feq P (n2b_in (lt_n2b s)) (lt_in0 s + push_bit n 1 - lt_in1 s) \<and>
     feq P (lt_out s) (1 - n2b_out (lt_n2b s) ! n)"

definition LessThan_wit :: "int \<Rightarrow> nat \<Rightarrow> int \<Rightarrow> int \<Rightarrow> LessThan" where
  "LessThan_wit P n a b =
     (let nb = Num2Bits_wit P (n + 1) ((a + push_bit n 1 - b) mod P)
      in \<lparr> lt_in0 = a, lt_in1 = b, lt_n2b = nb, lt_out = (1 - n2b_out nb ! n) mod P \<rparr>)"

record GreaterEqThan =
  ge_in0 :: int
  ge_in1 :: int
  ge_lt :: LessThan
  ge_out :: int

definition GreaterEqThan_ok :: "int \<Rightarrow> nat \<Rightarrow> GreaterEqThan \<Rightarrow> bool" where
  "GreaterEqThan_ok P n s \<longleftrightarrow>
     LessThan_ok P n (ge_lt s) \<and>
     feq P (lt_in0 (ge_lt s)) (ge_in0 s) \<and>
     feq P (lt_in1 (ge_lt s)) (ge_in1 s) \<and>
     feq P (ge_out s) (1 - lt_out (ge_lt s))"

definition GreaterEqThan_wit :: "int \<Rightarrow> nat \<Rightarrow> int \<Rightarrow> int \<Rightarrow> GreaterEqThan" where
  "GreaterEqThan_wit P n a b =
     (let l = LessThan_wit P n a b
      in \<lparr> ge_in0 = a, ge_in1 = b, ge_lt = l, ge_out = (1 - lt_out l) mod P \<rparr>)"

record LessEqThan =
  le_in0 :: int
  le_in1 :: int
  le_lt :: LessThan
  le_out :: int

definition LessEqThan_ok :: "int \<Rightarrow> nat \<Rightarrow> LessEqThan \<Rightarrow> bool" where
  "LessEqThan_ok P n s \<longleftrightarrow>
     LessThan_ok P n (le_lt s) \<and>
     feq P (lt_in0 (le_lt s)) (le_in1 s) \<and>
     feq P (lt_in1 (le_lt s)) (le_in0 s) \<and>
     feq P (le_out s) (1 - lt_out (le_lt s))"

definition LessEqThan_wit :: "int \<Rightarrow> nat \<Rightarrow> int \<Rightarrow> int \<Rightarrow> LessEqThan" where
  "LessEqThan_wit P n a b =
     (let l = LessThan_wit P n b a
      in \<lparr> le_in0 = a, le_in1 = b, le_lt = l, le_out = (1 - lt_out l) mod P \<rparr>)"

record IsEqual =
  eq_in0 :: int
  eq_in1 :: int
  eq_isz :: IsZero
  eq_out :: int

definition IsEqual_ok :: "int \<Rightarrow> IsEqual \<Rightarrow> bool" where
  "IsEqual_ok P s \<longleftrightarrow>
     IsZero_ok P (eq_isz s) \<and>
     feq P (iz_in (eq_isz s)) (eq_in0 s - eq_in1 s) \<and>
     feq P (eq_out s) (iz_out (eq_isz s))"

definition IsEqual_wit :: "int \<Rightarrow> int \<Rightarrow> int \<Rightarrow> IsEqual" where
  "IsEqual_wit P a b =
     (let z = IsZero_wit P ((a - b) mod P)
      in \<lparr> eq_in0 = a, eq_in1 = b, eq_isz = z, eq_out = iz_out z \<rparr>)"

subsection \<open>RSASetupVerifier\<close>

text \<open>
  The circuit text is an f-string: the two bounds are \<open>self.min_value\<close> and
  \<open>self.max_value\<close>, the comparator width is the literal 16. The last \<open><==\<close> multiplies
  five signals; the model reads it as the field equation it states.
\<close>

record RSASetupVerifier =
  rsa_p :: int
  rsa_q :: int
  rsa_n :: int
  rsa_validP :: int
  rsa_validQ :: int
  rsa_geP :: GreaterEqThan
  rsa_leP :: LessEqThan
  rsa_geQ :: GreaterEqThan
  rsa_leQ :: LessEqThan
  rsa_eq :: IsEqual
  rsa_different :: int
  rsa_primeP :: SimplePrimalityTest
  rsa_primeQ :: SimplePrimalityTest
  rsa_valid :: int

definition RSASetupVerifier_ok :: "int \<Rightarrow> ZKRSAVerifier \<Rightarrow> RSASetupVerifier \<Rightarrow> bool" where
  "RSASetupVerifier_ok P self s \<longleftrightarrow>
     feq P (rsa_n s) (rsa_p s * rsa_q s) \<and>
     GreaterEqThan_ok P 16 (rsa_geP s) \<and>
     feq P (ge_in0 (rsa_geP s)) (rsa_p s) \<and>
     feq P (ge_in1 (rsa_geP s)) (min_value self) \<and>
     LessEqThan_ok P 16 (rsa_leP s) \<and>
     feq P (le_in0 (rsa_leP s)) (rsa_p s) \<and>
     feq P (le_in1 (rsa_leP s)) (max_value self) \<and>
     feq P (rsa_validP s) (ge_out (rsa_geP s) * le_out (rsa_leP s)) \<and>
     GreaterEqThan_ok P 16 (rsa_geQ s) \<and>
     feq P (ge_in0 (rsa_geQ s)) (rsa_q s) \<and>
     feq P (ge_in1 (rsa_geQ s)) (min_value self) \<and>
     LessEqThan_ok P 16 (rsa_leQ s) \<and>
     feq P (le_in0 (rsa_leQ s)) (rsa_q s) \<and>
     feq P (le_in1 (rsa_leQ s)) (max_value self) \<and>
     feq P (rsa_validQ s) (ge_out (rsa_geQ s) * le_out (rsa_leQ s)) \<and>
     IsEqual_ok P (rsa_eq s) \<and>
     feq P (eq_in0 (rsa_eq s)) (rsa_p s) \<and>
     feq P (eq_in1 (rsa_eq s)) (rsa_q s) \<and>
     feq P (rsa_different s) (1 - eq_out (rsa_eq s)) \<and>
     SimplePrimalityTest_ok P (rsa_primeP s) \<and>
     feq P (spt_n (rsa_primeP s)) (rsa_p s) \<and>
     SimplePrimalityTest_ok P (rsa_primeQ s) \<and>
     feq P (spt_n (rsa_primeQ s)) (rsa_q s) \<and>
     feq P (rsa_valid s)
       (rsa_validP s * rsa_validQ s * rsa_different s
          * spt_isPrime (rsa_primeP s) * spt_isPrime (rsa_primeQ s)) \<and>
     feq P (rsa_valid s) 1"

definition RSASetupVerifier_wit :: "int \<Rightarrow> ZKRSAVerifier \<Rightarrow> int \<Rightarrow> int \<Rightarrow> RSASetupVerifier" where
  "RSASetupVerifier_wit P self p q =
     (let geP = GreaterEqThan_wit P 16 p (min_value self mod P);
          leP = LessEqThan_wit P 16 p (max_value self mod P);
          validP = (ge_out geP * le_out leP) mod P;
          geQ = GreaterEqThan_wit P 16 q (min_value self mod P);
          leQ = LessEqThan_wit P 16 q (max_value self mod P);
          validQ = (ge_out geQ * le_out leQ) mod P;
          eq = IsEqual_wit P p q;
          different = (1 - eq_out eq) mod P;
          primeP = SimplePrimalityTest_wit P p;
          primeQ = SimplePrimalityTest_wit P q
      in \<lparr> rsa_p = p, rsa_q = q, rsa_n = (p * q) mod P,
           rsa_validP = validP, rsa_validQ = validQ,
           rsa_geP = geP, rsa_leP = leP, rsa_geQ = geQ, rsa_leQ = leQ,
           rsa_eq = eq, rsa_different = different,
           rsa_primeP = primeP, rsa_primeQ = primeQ,
           rsa_valid = (validP * validQ * different * spt_isPrime primeP
                          * spt_isPrime primeQ) mod P \<rparr>)"

section \<open>Notions used to state the properties\<close>

text \<open>\<open>P\<close> is a prime number: no \<open>d\<close> strictly between 1 and \<open>P\<close> divides it.\<close>

definition fprime :: "int \<Rightarrow> bool" where
  "fprime P \<longleftrightarrow> 1 < P \<and> (\<forall>d\<in>{2..<P}. \<not> d dvd P)"

text \<open>The integer a list of bits stands for, least significant bit first.\<close>

fun bval :: "int list \<Rightarrow> int" where
  "bval [] = 0"
| "bval (b # bs) = b + 2 * bval bs"

text \<open>Modular exponentiation by squaring, \<open>a ^ e mod N\<close>, to evaluate primality certificates.\<close>

function mpow :: "int \<Rightarrow> int \<Rightarrow> int \<Rightarrow> int" where
  "mpow N a e = (if e \<le> 0 then 1 mod N
                 else if e mod 2 = 0 then (let h = mpow N a (e div 2) in (h * h) mod N)
                 else (a * mpow N a (e - 1)) mod N)"
  by pat_completeness auto
termination
  by (relation "measure (\<lambda>(N, a, e). nat e)") auto

declare mpow.simps [simp del]

section \<open>Properties of the driver\<close>

lemma trial_loop_iff: "trial_loop n xs \<longleftrightarrow> (\<forall>i\<in>set xs. n mod i \<noteq> 0)"
  by (induction xs) auto

lemma is_prime_even: "2 < n \<Longrightarrow> n mod 2 = 0 \<Longrightarrow> is_prime n = Inr False"
  by (simp add: is_prime_def)

lemma find_loop_even:
  "n mod 2 = 0 \<Longrightarrow> 2 < n \<Longrightarrow> find_loop self count [] n = Inr []"
proof (induction self count "[] :: int list" n rule: find_loop.induct)
  case (1 self count n)
  show ?case
  proof (cases "int (length ([] :: int list)) < count \<and> n \<le> max_value self")
    case True
    have ev: "is_prime n = Inr False"
      using "1.prems" by (rule_tac is_prime_even) auto
    have "find_loop self count [] (n + 2) = Inr []"
      using "1.hyps"[OF True ev] "1.prems" by simp
    then show ?thesis
      using True ev "1.prems" by (subst find_loop.simps) simp
  next
    case False
    then show ?thesis by (subst find_loop.simps) auto
  qed
qed

text \<open>
  C10. With \<open>bit_length = 16\<close> the scan of \<open>find_16bit_primes\<close> starts at the even
  number 32768 and moves in steps of two, so it tests even numbers only and returns the
  empty list, whatever \<open>count\<close> is.
\<close>

theorem find_16bit_primes_empty: "find_16bit_primes (init 16) count = Inr []"
  unfolding find_16bit_primes_def
  by (rule find_loop_even) (simp_all add: init_def)

subsection \<open>The primality test against the table\<close>


lemma isqrt_spec: "0 \<le> n \<Longrightarrow> isqrt n * isqrt n \<le> n \<and> n < (isqrt n + 1) * (isqrt n + 1) \<and> 0 \<le> isqrt n"
proof (induction n rule: isqrt.induct)
  case (1 n)
  show ?case
  proof (cases "n < 2")
    case True
    with "1.prems" have "n = 0 \<or> n = 1" by auto
    then show ?thesis by (subst (1 2 3 4 5) isqrt.simps) auto
  next
    case False
    define s where "s = isqrt (n div 4)"
    have ih: "s * s \<le> n div 4 \<and> n div 4 < (s + 1) * (s + 1) \<and> 0 \<le> s"
      using "1.IH"[OF False] "1.prems" False unfolding s_def by simp
    have lo: "(2 * s) * (2 * s) \<le> n"
    proof -
      have "4 * (s * s) \<le> 4 * (n div 4)" using ih by simp
      also have "\<dots> \<le> n" using "1.prems" by simp
      finally show ?thesis by (simp add: algebra_simps)
    qed
    have hi: "n < (2 * s + 2) * (2 * s + 2)"
    proof -
      have "n div 4 + 1 \<le> (s + 1) * (s + 1)" using ih by simp
      then have "4 * (n div 4) + 4 \<le> 4 * ((s + 1) * (s + 1))" by simp
      moreover have "n < 4 * (n div 4) + 4" by simp
      ultimately show ?thesis by (simp add: algebra_simps)
    qed
    have eq: "isqrt n = (if (2 * s + 1) * (2 * s + 1) \<le> n then 2 * s + 1 else 2 * s)"
      using False by (subst isqrt.simps) (simp add: s_def Let_def)
    show ?thesis
      using lo hi ih unfolding eq by (auto simp: algebra_simps)
  qed
qed

lemma set_range3: "set (range3 stop) = {i. 3 \<le> i \<and> i < stop \<and> odd i}"
proof (rule set_eqI, rule iffI)
  fix i assume "i \<in> set (range3 stop)"
  then obtain k where k: "k < nat ((stop - 3 + 1) div 2)" "i = 3 + 2 * int k"
    by (auto simp: range3_def)
  then have "int k < (stop - 2) div 2" by simp
  then have "2 * int k + 2 \<le> stop - 2" by simp
  then show "i \<in> {i. 3 \<le> i \<and> i < stop \<and> odd i}" using k by simp
next
  fix i assume "i \<in> {i. 3 \<le> i \<and> i < stop \<and> odd i}"
  then have i: "3 \<le> i" "i < stop" "odd i" by auto
  then obtain m where m: "i = 2 * m + 1" by (auto elim: oddE)
  have "i = 3 + 2 * int (nat (m - 1))" using i m by simp
  moreover have "nat (m - 1) < nat ((stop - 3 + 1) div 2)"
  proof -
    have "2 * m \<le> stop - 2" using i m by simp
    then have "m \<le> (stop - 2) div 2" by simp
    then show ?thesis using i m by simp
  qed
  ultimately show "i \<in> set (range3 stop)"
    unfolding range3_def by (metis (mono_tags, lifting) atLeast0LessThan imageI lessThan_iff set_map set_upt)
qed

lemma primes_cover: "\<forall>i\<in>set [2..255]. \<exists>t\<in>set primes. t dvd i"
  by code_simp

lemma primes_bounds: "\<forall>t\<in>set primes. 2 \<le> t \<and> t \<le> 251"
  by (simp add: primes_def)

lemma two_in_primes: "2 \<in> set primes"
  by (simp add: primes_def)

lemma small_has_table_factor:
  assumes "2 \<le> i" "i \<le> 255"
  shows "\<exists>t\<in>set primes. t dvd i"
proof -
  have "i \<in> set [2..255]" using assms by (simp only: set_upto atLeastAtMost_iff)
  with primes_cover show ?thesis by blast
qed

lemma not_overflow_16: "m \<le> 65535 \<Longrightarrow> \<not> float_overflow \<le> m"
  by (simp add: float_overflow_def)

lemma is_prime_odd_eq:
  assumes "2 < m" "m < float_overflow"
  shows "is_prime m = Inr (odd m \<and> (\<forall>i. 3 \<le> i \<and> i \<le> isqrt m \<and> odd i \<longrightarrow> m mod i \<noteq> 0))"
  using assms
  by (auto simp: is_prime_def int_sqrt_float_def trial_loop_iff set_range3)

text \<open>
  C7. On the operand range \<open>32768 \<le> m \<le> 65535\<close>, \<open>m\<close> has no factor in the
  circuit's table of 54 primes if and only if \<open>_is_prime(m)\<close> returns \<open>True\<close>: the
  Python validator and the circuit's trial-division policy agree there.
\<close>

theorem trial_division_agrees:
  assumes "32768 \<le> m" "m \<le> 65535"
  shows "(\<forall>t\<in>set primes. m mod t \<noteq> 0) \<longleftrightarrow> is_prime m = Inr True"
proof -
  define r where "r = isqrt m"
  have r: "r * r \<le> m" "m < (r + 1) * (r + 1)" "0 \<le> r"
    using isqrt_spec[of m] assms unfolding r_def by auto
  have r255: "r \<le> 255"
  proof (rule ccontr)
    assume "\<not> r \<le> 255"
    then have "256 \<le> r" by simp
    then have "256 * 256 \<le> r * r" by (intro mult_mono) auto
    with r assms show False by simp
  qed
  have ip: "is_prime m = Inr (odd m \<and> (\<forall>i. 3 \<le> i \<and> i \<le> r \<and> odd i \<longrightarrow> m mod i \<noteq> 0))"
    unfolding r_def using assms by (intro is_prime_odd_eq) (auto simp: float_overflow_def)
  show ?thesis
  proof
    assume nt: "\<forall>t\<in>set primes. m mod t \<noteq> 0"
    have "odd m" using nt two_in_primes by (auto simp: odd_iff_mod_2_eq_one)
    moreover have "m mod i \<noteq> 0" if i3: "3 \<le> i" and ir: "i \<le> r" for i
    proof
      assume "m mod i = 0"
      then have "i dvd m" by auto
      obtain t where "t \<in> set primes" "t dvd i"
        using small_has_table_factor[of i] i3 ir r255 by auto
      then have "t dvd m" using \<open>i dvd m\<close> by (meson dvd_trans)
      then show False using nt \<open>t \<in> set primes\<close> by auto
    qed
    ultimately show "is_prime m = Inr True" unfolding ip by simp
  next
    assume "is_prime m = Inr True"
    then have om: "odd m" and nd: "\<And>i. 3 \<le> i \<Longrightarrow> i \<le> r \<Longrightarrow> odd i \<Longrightarrow> m mod i \<noteq> 0"
      unfolding ip by auto
    show "\<forall>t\<in>set primes. m mod t \<noteq> 0"
    proof (rule ballI, rule notI)
      fix t assume t: "t \<in> set primes" "m mod t = 0"
      then have tb: "2 \<le> t" "t \<le> 251" using primes_bounds by auto
      from t obtain k where k: "m = t * k" by auto
      have ot: "odd t" and ok: "odd k" using om k by auto
      have t3: "3 \<le> t" using tb ot by (cases "t = 2") auto
      have kpos: "0 < k"
      proof (rule ccontr)
        assume "\<not> 0 < k"
        then have "t * k \<le> 0" using tb by (simp add: mult_le_0_iff)
        with k assms show False by simp
      qed
      have k3: "3 \<le> k"
      proof (rule ccontr)
        assume "\<not> 3 \<le> k"
        then have "k \<le> 2" by simp
        then have "t * k \<le> 251 * 2" using tb kpos by (intro mult_mono) auto
        with k assms show False by simp
      qed
      show False
      proof (cases "t \<le> r")
        case True
        then show ?thesis using nd[OF t3 True ot] t by simp
      next
        case False
        then have "r + 1 \<le> t" by simp
        have "k \<le> r"
        proof (rule ccontr)
          assume "\<not> k \<le> r"
          then have "r + 1 \<le> k" by simp
          then have "(r + 1) * (r + 1) \<le> t * k"
            using \<open>r + 1 \<le> t\<close> r by (intro mult_mono) auto
          with r k show False by simp
        qed
        then show ?thesis using nd[OF k3 _ ok] k by simp
      qed
    qed
  qed
qed

theorem trial_division_agrees_witness:
  "(32768::int) \<le> 32771 \<and> (32771::int) \<le> 65535 \<and>
   ((\<forall>t\<in>set primes. 32771 mod t \<noteq> 0) \<longleftrightarrow> is_prime 32771 = Inr True)"
  using trial_division_agrees [of 32771] by simp

subsection \<open>The validation in \<open>generate_proof\<close>\<close>

lemma is_prime_returns: "n < float_overflow \<Longrightarrow> \<exists>b. is_prime n = Inr b"
  by (auto simp: is_prime_def int_sqrt_float_def)

text \<open>
  Whenever both primality tests return, \<open>generate_proof\<close> raises \<open>ValueError\<close> exactly
  when one of the five conditions is violated, and otherwise goes on to witness
  computation with the unchanged inputs.
\<close>

lemma generate_proof_validate_rejects:
  assumes "is_prime p = Inr bp" "is_prime q = Inr bq"
  shows "(\<exists>msg. generate_proof_validate self p q = Inl (ValueError msg)) \<longleftrightarrow>
           (\<not> bp \<or> \<not> bq \<or> p = q
            \<or> \<not> (min_value self \<le> p \<and> p \<le> max_value self)
            \<or> \<not> (min_value self \<le> q \<and> q \<le> max_value self))"
    and "generate_proof_validate self p q = Inr (p, q) \<longleftrightarrow>
           \<not> (\<not> bp \<or> \<not> bq \<or> p = q
            \<or> \<not> (min_value self \<le> p \<and> p \<le> max_value self)
            \<or> \<not> (min_value self \<le> q \<and> q \<le> max_value self))"
  using assms by (auto simp: generate_proof_validate_def)

lemma generate_proof_rejects_32770:
  "generate_proof_validate self 32770 q = Inl (ValueError ''Both p and q must be prime'')"
  by (simp add: generate_proof_validate_def is_prime_def)

text \<open>
  C8. \<open>generate_proof\<close> is to raise \<open>ValueError\<close> exactly when \<open>p\<close> or \<open>q\<close> is not
  prime under the validation test, or \<open>p = q\<close>, or one of them lies outside
  \<open>[min_value, max_value]\<close>. It does not for every input: the primality test runs
  before the range check, and for an odd \<open>p\<close> too large for a double, \<open>n ** 0.5\<close>
  raises \<open>OverflowError\<close>. The input \<open>p = 2^1024 + 1\<close>, far outside the range, leaves
  \<open>generate_proof\<close> with \<open>OverflowError\<close> and not with \<open>ValueError\<close>.
\<close>

theorem generate_proof_overflow:
  "generate_proof_validate (init 16) (2 ^ 1024 + 1) 32771 = Inl OverflowError"
  by (simp add: generate_proof_validate_def is_prime_def int_sqrt_float_def float_overflow_def)

section \<open>Properties of the circuit\<close>

subsection \<open>Field arithmetic\<close>

lemma feq_refl [simp]: "feq P a a"
  by (simp add: feq_def)

lemma feq_mod_left [simp]: "feq P (a mod P) b \<longleftrightarrow> feq P a b"
  by (simp add: feq_def)

lemma feq_mod_right [simp]: "feq P a (b mod P) \<longleftrightarrow> feq P a b"
  by (simp add: feq_def)

lemma egcd_bezout:
  "0 \<le> a \<Longrightarrow> 0 \<le> b \<Longrightarrow> fst (egcd a b) * a + snd (egcd a b) * b = gcd a b"
proof (induction a b rule: egcd.induct)
  case (1 a b)
  show ?case
  proof (cases "b \<le> 0")
    case True
    with "1.prems" have "b = 0" by simp
    then show ?thesis using "1.prems" by (subst (1 2) egcd.simps) simp
  next
    case False
    obtain s t where st: "egcd b (a mod b) = (s, t)" by (cases "egcd b (a mod b)")
    have ih: "s * b + t * (a mod b) = gcd b (a mod b)"
      using "1.IH"[OF False] "1.prems" False st by simp
    have e: "egcd a b = (t, s - t * (a div b))"
      using False st by (subst egcd.simps) simp
    have "t * a + (s - t * (a div b)) * b = s * b + t * (a - (a div b) * b)"
      by (simp add: algebra_simps)
    also have "a - (a div b) * b = a mod b"
      by (simp add: minus_div_mult_eq_mod)
    also have "s * b + t * (a mod b) = gcd b (a mod b)" by (rule ih)
    also have "\<dots> = gcd a b" by (simp add: gcd.commute gcd_red_int[symmetric])
    finally show ?thesis by (simp add: e)
  qed
qed

lemma finv_mult:
  assumes "0 < P"
  shows "(x * finv P x) mod P = gcd (x mod P) P mod P"
proof -
  have b: "fst (egcd (x mod P) P) * (x mod P) + snd (egcd (x mod P) P) * P = gcd (x mod P) P"
    using assms by (intro egcd_bezout) auto
  have "(x * finv P x) mod P = ((x mod P) * fst (egcd (x mod P) P)) mod P"
    unfolding finv_def by (metis mod_mult_left_eq mod_mult_right_eq)
  also have "\<dots> = (fst (egcd (x mod P) P) * (x mod P) + snd (egcd (x mod P) P) * P) mod P"
    by (simp add: mult.commute)
  also have "\<dots> = gcd (x mod P) P mod P" by (simp only: b)
  finally show ?thesis .
qed

lemma finv_coprime:
  assumes "1 < P" "coprime x P"
  shows "(x * finv P x) mod P = 1"
proof -
  have "gcd (x mod P) P = 1"
    using assms by (metis coprime_iff_gcd_eq_1 gcd.commute gcd_red_int)
  then show ?thesis using finv_mult[of P x] assms by simp
qed

lemma finv_nonzero:
  assumes "1 < P" "x mod P \<noteq> 0"
  shows "(x * finv P x) mod P \<noteq> 0"
proof -
  let ?g = "gcd (x mod P) P"
  have "0 < x mod P" using assms pos_mod_sign[of P x] by linarith
  then have "?g \<le> x mod P" by (intro gcd_le1_int)
  moreover have "x mod P < P" using assms by simp
  moreover have "0 < ?g" using assms by simp
  ultimately have "?g mod P = ?g" "?g \<noteq> 0" by auto
  then show ?thesis using finv_mult[of P x] assms by simp
qed

lemma fprime_coprime:
  assumes "fprime P" "0 < x" "x < P"
  shows "coprime x P"
proof -
  let ?g = "gcd x P"
  have P: "1 < P" and nd: "\<And>d. 2 \<le> d \<Longrightarrow> d < P \<Longrightarrow> \<not> d dvd P"
    using assms by (auto simp: fprime_def)
  have "?g \<le> x" using assms(2) by (intro gcd_le1_int)
  then have "?g < P" using assms(3) by linarith
  moreover have "?g dvd P" by simp
  moreover have "0 \<le> ?g" by simp
  moreover have "?g \<noteq> 0" using assms(2) by simp
  ultimately have "?g = 1"
  proof -
    assume a: "?g < P" "?g dvd P" "0 \<le> ?g" "?g \<noteq> 0"
    show ?thesis
    proof (rule ccontr)
      assume "?g \<noteq> 1"
      with a have "2 \<le> ?g" by linarith
      with nd[of ?g] a show False by blast
    qed
  qed
  then show ?thesis by (simp add: coprime_iff_gcd_eq_1)
qed

lemma fprime_coprime_mod:
  assumes "fprime P" "x mod P \<noteq> 0"
  shows "coprime x P"
proof -
  have P: "1 < P" using assms by (simp add: fprime_def)
  have "0 < x mod P" using assms(2) P pos_mod_sign[of P x] by linarith
  moreover have "x mod P < P" using P by simp
  ultimately have "coprime (x mod P) P"
    using assms(1) by (intro fprime_coprime)
  then show ?thesis by (metis coprime_iff_gcd_eq_1 gcd.commute gcd_red_int)
qed

lemma fprime_dvd_mult:
  assumes "fprime P" "(a * b) mod P = 0"
  shows "a mod P = 0 \<or> b mod P = 0"
proof (cases "a mod P = 0")
  case False
  then have "coprime P a" using fprime_coprime_mod[OF assms(1), of a] by (simp add: coprime_commute)
  moreover have "P dvd b * a" using assms by (simp add: mult.commute mod_eq_0_iff_dvd)
  ultimately have "P dvd b" by (simp add: coprime_dvd_mult_left_iff)
  then show ?thesis by simp
qed simp

subsection \<open>IsZero and ModulusCheck\<close>

lemma IsZero_wit_zero:
  "1 < P \<Longrightarrow> IsZero_ok P (IsZero_wit P 0) \<and> iz_out (IsZero_wit P 0) = 1"
  by (simp add: IsZero_ok_def IsZero_wit_def feq_def)

lemma IsZero_wit_coprime:
  assumes "1 < P" "x \<noteq> 0" "coprime x P"
  shows "IsZero_ok P (IsZero_wit P x) \<and> iz_out (IsZero_wit P x) = 0"
proof -
  have "(- (x * finv P x) + 1) mod P = (- ((x * finv P x) mod P) + 1) mod P"
    by (simp add: mod_simps)
  also have "\<dots> = 0" using finv_coprime[OF assms(1,3)] by simp
  finally have o: "(- x * finv P x + 1) mod P = 0" by simp
  show ?thesis
    using assms o by (simp add: IsZero_ok_def IsZero_wit_def Let_def feq_def)
qed

lemma IsZero_wit_out_one:
  assumes "1 < P" "0 \<le> x" "x < P"
  shows "iz_out (IsZero_wit P x) = 1 \<longleftrightarrow> x = 0"
proof (cases "x = 0")
  case True
  then show ?thesis using assms by (simp add: IsZero_wit_def)
next
  case False
  then have nz: "x mod P \<noteq> 0" using assms by simp
  have "(- (x * finv P x) + 1) mod P \<noteq> 1"
  proof
    assume "(- (x * finv P x) + 1) mod P = 1"
    then have "(- (x * finv P x) + 1) mod P = 1 mod P" using assms by simp
    then have "(- (x * finv P x) + 1 - 1) mod P = (1 - 1) mod P"
      by (rule mod_diff_cong) simp
    then have "(- (x * finv P x)) mod P = 0" by simp
    then have "(x * finv P x) mod P = 0" by (simp add: mod_eq_0_iff_dvd)
    with finv_nonzero[OF assms(1) nz] show False by simp
  qed
  then show ?thesis using False by (simp add: IsZero_wit_def Let_def)
qed

text \<open>
  C2. The constraints of \<open>ModulusCheck\<close> do not force \<open>0 \<le> remainder < modulus\<close>:
  over the bn128 field, for the value 32770 and the modulus 2, which divides it, the
  assignment with \<open>remainder = 1\<close> and \<open>quotient = (P + 32769) / 2\<close> satisfies every
  constraint and has \<open>isNotDivisible = 1\<close>.
\<close>

theorem ModulusCheck_remainder_unconstrained:
  "(32770::int) mod 2 = 0 \<and>
   (\<exists>s. ModulusCheck_ok bn128 s \<and> mc_value s = 32770 \<and> mc_modulus s = 2 \<and>
        mc_quotient s = (bn128 + 32769) div 2 \<and> mc_remainder s = 1 \<and>
        mc_isZero s = \<lparr> iz_in = 1, iz_inv = 1, iz_out = 0 \<rparr> \<and>
        mc_isNotDivisible s = 1)"
proof -
  let ?s = "\<lparr> mc_value = 32770, mc_modulus = 2, mc_quotient = (bn128 + 32769) div 2,
             mc_remainder = 1, mc_isZero = \<lparr> iz_in = 1, iz_inv = 1, iz_out = 0 \<rparr>,
             mc_isNotDivisible = 1 \<rparr>"
  have "ModulusCheck_ok bn128 ?s"
    by (simp add: ModulusCheck_ok_def IsZero_ok_def feq_def bn128_def)
  then show ?thesis by (intro conjI exI[of _ ?s]) simp_all
qed

subsection \<open>Bits2Num and Num2Bits\<close>

lemma Bits2Num_lc_bval:
  "Bits2Num_lc P lc e2 bs mod P = (lc + e2 * bval bs) mod P"
proof (induction bs arbitrary: lc e2)
  case Nil
  then show ?case by simp
next
  case (Cons b bs)
  have "Bits2Num_lc P lc e2 (b # bs) mod P
        = ((lc + b * e2) mod P + (e2 * 2) mod P * bval bs) mod P"
    by (simp add: Cons.IH)
  also have "\<dots> = ((lc + b * e2) + (e2 * 2) * bval bs) mod P"
    by (intro mod_add_cong mod_mult_cong) simp_all
  also have "(lc + b * e2) + (e2 * 2) * bval bs = lc + e2 * bval (b # bs)"
    by (simp add: algebra_simps)
  finally show ?case .
qed

lemma bval_mod_cong:
  "length as = length bs \<Longrightarrow> (\<forall>i<length as. feq P (as ! i) (bs ! i)) \<Longrightarrow>
   bval as mod P = bval bs mod P"
proof (induction as bs rule: list_induct2)
  case Nil
  then show ?case by simp
next
  case (Cons a as b bs)
  have h: "a mod P = b mod P" using Cons.prems by (auto simp: feq_def)
  have "\<forall>i<length as. feq P (as ! i) (bs ! i)"
    using Cons.prems by (metis Suc_less_eq length_Cons nth_Cons_Suc)
  then have t: "bval as mod P = bval bs mod P" by (rule Cons.IH)
  have "(a + 2 * bval as) mod P = (b + 2 * bval bs) mod P"
    using h t by (intro mod_add_cong mod_mult_cong) simp_all
  then show ?case by simp
qed

lemma bval_bounds:
  "(\<forall>b\<in>set bs. b = 0 \<or> b = 1) \<Longrightarrow> 0 \<le> bval bs \<and> bval bs < 2 ^ length bs"
  by (induction bs) auto

lemma bval_bit:
  "(\<forall>b\<in>set bs. b = 0 \<or> b = 1) \<Longrightarrow> i < length bs \<Longrightarrow> (bval bs div 2 ^ i) mod 2 = bs ! i"
proof (induction bs arbitrary: i)
  case Nil
  then show ?case by simp
next
  case (Cons b bs)
  have b: "b = 0 \<or> b = 1" using Cons.prems by simp
  show ?case
  proof (cases i)
    case 0
    then show ?thesis using b by auto
  next
    case (Suc j)
    have "(b + 2 * bval bs) div (2 * 2 ^ j) = ((b + 2 * bval bs) div 2) div 2 ^ j"
      by (rule zdiv_zmult2_eq) simp
    also have "(b + 2 * bval bs) div 2 = bval bs" using b by auto
    finally have "(b + 2 * bval bs) div 2 ^ Suc j = bval bs div 2 ^ j" by simp
    moreover have "(bval bs div 2 ^ j) mod 2 = bs ! j"
      using Cons.IH[of j] Cons.prems Suc by simp
    ultimately show ?thesis using Suc by simp
  qed
qed

text \<open>The bits the witness rule \<open>(in >> i) & 1\<close> computes.\<close>

lemma honest_bit: "drop_bit i x AND 1 = (x div 2 ^ i) mod (2::int)"
  by (simp add: and_one_eq drop_bit_eq_div)

lemma honest_bit_bool: "drop_bit i x AND (1::int) = 0 \<or> drop_bit i x AND (1::int) = 1"
  unfolding honest_bit by auto

lemma bval_honest:
  "bval (map (\<lambda>i. drop_bit i x AND 1) [0..<n]) = x mod 2 ^ n"
proof (induction n arbitrary: x)
  case 0
  then show ?case by simp
next
  case (Suc n)
  have "map (\<lambda>i. drop_bit i x AND 1) [0..<Suc n]
        = (x mod 2) # map (\<lambda>i. drop_bit i (x div 2) AND 1) [0..<n]"
    by (simp add: map_upt_Suc and_one_eq drop_bit_Suc del: upt_Suc)
  then have "bval (map (\<lambda>i. drop_bit i x AND 1) [0..<Suc n]) = x mod 2 + 2 * ((x div 2) mod 2 ^ n)"
    by (simp add: Suc.IH)
  also have "\<dots> = x mod 2 ^ Suc n"
    by (simp add: zmod_zmult2_eq)
  finally show ?case .
qed

lemma Num2Bits_wit_ok:
  assumes "0 \<le> x" "x < 2 ^ n"
  shows "Num2Bits_ok P n (Num2Bits_wit P n x)"
proof -
  let ?out = "map (\<lambda>i. drop_bit i x AND 1) [0..<n]"
  have v: "bval ?out = x" using assms by (simp add: bval_honest)
  have bits: "\<forall>b\<in>set ?out. feq P (b * (b - 1)) 0"
  proof
    fix b assume "b \<in> set ?out"
    then obtain i where "b = drop_bit i x AND 1" by auto
    then have "b = 0 \<or> b = 1" using honest_bit_bool[of i x] by simp
    then show "feq P (b * (b - 1)) 0" by (auto simp: feq_def)
  qed
  have "Bits2Num_lc P 0 1 ?out mod P = x mod P"
    using Bits2Num_lc_bval[of P 0 1 ?out] v by simp
  then have out: "feq P (Bits2Num_lc P 0 1 ?out mod P) x" by (simp add: feq_def)
  show ?thesis
    unfolding Num2Bits_ok_def Num2Bits_wit_def Bits2Num_ok_def Bits2Num_wit_def Let_def
    using bits out by simp
qed

lemma Num2Bits_wit_out:
  assumes "0 \<le> x" "x < 2 ^ n" "x < P"
  shows "b2n_out (n2b_n2b (Num2Bits_wit P n x)) = x"
proof -
  let ?out = "map (\<lambda>i. drop_bit i x AND 1) [0..<n]"
  have "Bits2Num_lc P 0 1 ?out mod P = x mod P"
    using Bits2Num_lc_bval[of P 0 1 ?out] assms by (simp add: bval_honest)
  then show ?thesis using assms by (simp add: Num2Bits_wit_def Bits2Num_wit_def Let_def)
qed

text \<open>What the constraints of \<open>Num2Bits\<close> force, in a prime field.\<close>

lemma fprime_bit:
  assumes "fprime P" "feq P (b * (b - 1)) 0"
  shows "b mod P = 0 \<or> b mod P = 1"
proof -
  have P: "1 < P" using assms by (simp add: fprime_def)
  have "(b * (b - 1)) mod P = 0" using assms by (simp add: feq_def)
  then have d: "b mod P = 0 \<or> (b - 1) mod P = 0" by (rule fprime_dvd_mult[OF assms(1)])
  have "b mod P = 1" if "(b - 1) mod P = 0"
  proof -
    have "(b - 1 + 1) mod P = (0 + 1) mod P" using that by (metis mod_add_left_eq)
    then show ?thesis using P by simp
  qed
  with d show ?thesis by auto
qed

lemma Num2Bits_sound:
  assumes "fprime P" "Num2Bits_ok P n s"
  obtains v where "0 \<le> v" "v < 2 ^ n" "n2b_in s mod P = v mod P"
    "\<And>i. i < n \<Longrightarrow> n2b_out s ! i mod P = (v div 2 ^ i) mod 2"
proof -
  let ?bs = "map (\<lambda>b. b mod P) (n2b_out s)"
  let ?ins = "b2n_in (n2b_n2b s)"
  have len: "length (n2b_out s) = n" "length ?ins = n"
    using assms by (auto simp: Num2Bits_ok_def Bits2Num_ok_def)
  have bits: "\<forall>b\<in>set ?bs. b = 0 \<or> b = 1"
    using assms fprime_bit[OF assms(1)] by (auto simp: Num2Bits_ok_def)
  have "\<forall>i<length ?ins. feq P (?ins ! i) (?bs ! i)"
    using assms len by (auto simp: Num2Bits_ok_def feq_def)
  then have c: "bval ?ins mod P = bval ?bs mod P"
    using len by (intro bval_mod_cong) auto
  have "n2b_in s mod P = b2n_out (n2b_n2b s) mod P"
    using assms by (simp add: Num2Bits_ok_def feq_def)
  also have "\<dots> = Bits2Num_lc P 0 1 ?ins mod P"
    using assms by (simp add: Num2Bits_ok_def Bits2Num_ok_def feq_def)
  also have "\<dots> = bval ?ins mod P" using Bits2Num_lc_bval[of P 0 1 ?ins] by simp
  finally have i: "n2b_in s mod P = bval ?bs mod P" using c by simp
  show ?thesis
  proof (rule that[of "bval ?bs"])
    show "0 \<le> bval ?bs" "bval ?bs < 2 ^ n" using bval_bounds[OF bits] len by auto
    show "n2b_in s mod P = bval ?bs mod P" by (rule i)
    show "n2b_out s ! i mod P = (bval ?bs div 2 ^ i) mod 2" if "i < n" for i
      using bval_bit[OF bits, of i] that len by simp
  qed
qed

subsection \<open>Comparators\<close>

lemma IsZero_wit_sel:
  "iz_in (IsZero_wit P x) = x"
  "iz_out (IsZero_wit P x) = (- x * iz_inv (IsZero_wit P x) + 1) mod P"
  by (simp_all add: IsZero_wit_def Let_def)

lemma Num2Bits_wit_sel:
  "n2b_in (Num2Bits_wit P n x) = x"
  "n2b_out (Num2Bits_wit P n x) = map (\<lambda>i. drop_bit i x AND 1) [0..<n]"
  by (simp_all add: Num2Bits_wit_def Let_def)

lemma LessThan_wit_sel:
  "lt_in0 (LessThan_wit P n a b) = a"
  "lt_in1 (LessThan_wit P n a b) = b"
  "lt_n2b (LessThan_wit P n a b) = Num2Bits_wit P (n + 1) ((a + push_bit n 1 - b) mod P)"
  "lt_out (LessThan_wit P n a b)
     = (1 - n2b_out (Num2Bits_wit P (n + 1) ((a + push_bit n 1 - b) mod P)) ! n) mod P"
  by (simp_all add: LessThan_wit_def Let_def del: upt_Suc)

lemma GreaterEqThan_wit_sel:
  "ge_in0 (GreaterEqThan_wit P n a b) = a"
  "ge_in1 (GreaterEqThan_wit P n a b) = b"
  "ge_lt (GreaterEqThan_wit P n a b) = LessThan_wit P n a b"
  "ge_out (GreaterEqThan_wit P n a b) = (1 - lt_out (LessThan_wit P n a b)) mod P"
  by (simp_all add: GreaterEqThan_wit_def Let_def)

lemma LessEqThan_wit_sel:
  "le_in0 (LessEqThan_wit P n a b) = a"
  "le_in1 (LessEqThan_wit P n a b) = b"
  "le_lt (LessEqThan_wit P n a b) = LessThan_wit P n b a"
  "le_out (LessEqThan_wit P n a b) = (1 - lt_out (LessThan_wit P n b a)) mod P"
  by (simp_all add: LessEqThan_wit_def Let_def)

lemma IsEqual_wit_sel:
  "eq_in0 (IsEqual_wit P a b) = a"
  "eq_in1 (IsEqual_wit P a b) = b"
  "eq_isz (IsEqual_wit P a b) = IsZero_wit P ((a - b) mod P)"
  "eq_out (IsEqual_wit P a b) = iz_out (IsZero_wit P ((a - b) mod P))"
  by (simp_all add: IsEqual_wit_def Let_def)

lemma Num2Bits_wit_top:
  "n2b_out (Num2Bits_wit P (n + 1) y) ! n = (y div 2 ^ n) mod 2"
proof -
  have "[0..<n + 1] ! n = n" by (simp add: nth_append)
  moreover have "n < length [0..<n + 1]" by simp
  ultimately have "map (\<lambda>i. drop_bit i y AND 1) [0..<n + 1] ! n = drop_bit n y AND 1"
    by (simp only: nth_map)
  then show ?thesis by (simp only: Num2Bits_wit_sel honest_bit)
qed

lemma two_pow_le_gt1: "2 ^ (n + 1) \<le> P \<Longrightarrow> (1::int) < P"
proof -
  assume a: "2 ^ (n + 1) \<le> P"
  have "(1::int) \<le> 2 ^ n" by simp
  then have "(2::int) \<le> 2 ^ (n + 1)" by simp
  with a show ?thesis by linarith
qed

lemma LessThan_arg:
  fixes a b P :: int
  assumes "0 \<le> a" "a < 2 ^ n" "0 \<le> b" "b < 2 ^ n" "2 ^ (n + 1) \<le> P"
  shows "(a + push_bit n 1 - b) mod P = a + 2 ^ n - b"
    and "0 \<le> a + 2 ^ n - b" and "a + 2 ^ n - b < 2 ^ (n + 1)"
    and "((a + 2 ^ n - b) div 2 ^ n) mod 2 = (if a < b then 0 else 1)"
proof -
  let ?y = "a + 2 ^ n - b"
  show y0: "0 \<le> ?y" using assms by linarith
  show y1: "?y < 2 ^ (n + 1)" using assms by simp
  have "?y < P" using y1 assms(5) by linarith
  then show "(a + push_bit n 1 - b) mod P = ?y"
    using y0 by (simp add: push_bit_eq_mult)
  show "(?y div 2 ^ n) mod 2 = (if a < b then 0 else 1)"
  proof (cases "a < b")
    case True
    then have "?y < 2 ^ n" by simp
    then have "?y div 2 ^ n = 0" using y0 by (rule_tac div_pos_pos_trivial)
    then show ?thesis using True by simp
  next
    case False
    have e: "?y = (a - b) + 1 * 2 ^ n" by simp
    have "0 \<le> a - b" "a - b < 2 ^ n" using False assms by linarith+
    then have "(a - b) div 2 ^ n = 0" by (rule div_pos_pos_trivial)
    then have "?y div 2 ^ n = 1" by (subst e, subst div_mult_self1) simp_all
    then show ?thesis using False by simp
  qed
qed

lemma LessThan_wit_ok:
  assumes "0 \<le> a" "a < 2 ^ n" "0 \<le> b" "b < 2 ^ n" "2 ^ (n + 1) \<le> P"
  shows "LessThan_ok P n (LessThan_wit P n a b)"
    and "lt_out (LessThan_wit P n a b) = (if a < b then 1 else 0)"
proof -
  note arg = LessThan_arg[OF assms]
  have P: "1 < P" using assms(5) by (rule two_pow_le_gt1)
  have nb: "Num2Bits_ok P (n + 1) (Num2Bits_wit P (n + 1) (a + 2 ^ n - b))"
    using arg(2,3) by (rule Num2Bits_wit_ok)
  show "LessThan_ok P n (LessThan_wit P n a b)"
    unfolding LessThan_ok_def LessThan_wit_sel Num2Bits_wit_sel(1) arg(1)
    using nb by (simp add: push_bit_eq_mult)
  show "lt_out (LessThan_wit P n a b) = (if a < b then 1 else 0)"
    unfolding LessThan_wit_sel arg(1) Num2Bits_wit_top arg(4) using P by simp
qed

lemma GreaterEqThan_wit_ok:
  assumes "0 \<le> a" "a < 2 ^ n" "0 \<le> b" "b < 2 ^ n" "2 ^ (n + 1) \<le> P"
  shows "GreaterEqThan_ok P n (GreaterEqThan_wit P n a b)"
    and "ge_out (GreaterEqThan_wit P n a b) = (if b \<le> a then 1 else 0)"
proof -
  have P: "1 < P" using assms(5) by (rule two_pow_le_gt1)
  note lt = LessThan_wit_ok[OF assms]
  show "GreaterEqThan_ok P n (GreaterEqThan_wit P n a b)"
    unfolding GreaterEqThan_ok_def GreaterEqThan_wit_sel LessThan_wit_sel(1,2)
    using lt(1) by simp
  show "ge_out (GreaterEqThan_wit P n a b) = (if b \<le> a then 1 else 0)"
    unfolding GreaterEqThan_wit_sel lt(2) using P by simp
qed

lemma LessEqThan_wit_ok:
  assumes "0 \<le> a" "a < 2 ^ n" "0 \<le> b" "b < 2 ^ n" "2 ^ (n + 1) \<le> P"
  shows "LessEqThan_ok P n (LessEqThan_wit P n a b)"
    and "le_out (LessEqThan_wit P n a b) = (if a \<le> b then 1 else 0)"
proof -
  have P: "1 < P" using assms(5) by (rule two_pow_le_gt1)
  note lt = LessThan_wit_ok[OF assms(3,4,1,2,5)]
  show "LessEqThan_ok P n (LessEqThan_wit P n a b)"
    unfolding LessEqThan_ok_def LessEqThan_wit_sel LessThan_wit_sel(1,2)
    using lt(1) by simp
  show "le_out (LessEqThan_wit P n a b) = (if a \<le> b then 1 else 0)"
    unfolding LessEqThan_wit_sel lt(2) using P by simp
qed

lemma diff_mod_zero_iff: "(a - b) mod P = 0 \<longleftrightarrow> a mod P = b mod (P::int)"
  by (simp add: mod_eq_dvd_iff mod_eq_0_iff_dvd)

lemma IsEqual_wit_out:
  assumes "1 < P" "0 \<le> a" "a < P" "0 \<le> b" "b < P"
  shows "eq_out (IsEqual_wit P a b) = 1 \<longleftrightarrow> a = b"
proof -
  have "(a - b) mod P = 0 \<longleftrightarrow> a = b"
    unfolding diff_mod_zero_iff using assms by simp
  moreover have "iz_out (IsZero_wit P ((a - b) mod P)) = 1 \<longleftrightarrow> (a - b) mod P = 0"
    using assms(1) by (intro IsZero_wit_out_one) simp_all
  ultimately show ?thesis unfolding IsEqual_wit_sel by simp
qed

lemma IsEqual_wit_ok:
  assumes "1 < P" "a mod P = b mod P \<or> coprime (a - b) P"
  shows "IsEqual_ok P (IsEqual_wit P a b)"
    and "eq_out (IsEqual_wit P a b) = (if a mod P = b mod P then 1 else 0)"
proof -
  let ?x = "(a - b) mod P"
  have iz: "IsZero_ok P (IsZero_wit P ?x) \<and> iz_out (IsZero_wit P ?x) = (if a mod P = b mod P then 1 else 0)"
  proof (cases "?x = 0")
    case True
    moreover from True have "a mod P = b mod P" by (simp add: diff_mod_zero_iff)
    ultimately show ?thesis using IsZero_wit_zero[OF assms(1)] by simp
  next
    case False
    then have "coprime (a - b) P" using assms by (simp add: diff_mod_zero_iff)
    then have "coprime ?x P" by (metis coprime_iff_gcd_eq_1 gcd.commute gcd_red_int)
    moreover from False have "a mod P \<noteq> b mod P" by (simp add: diff_mod_zero_iff)
    ultimately show ?thesis
      using IsZero_wit_coprime[OF assms(1) False] by simp
  qed
  show "IsEqual_ok P (IsEqual_wit P a b)"
    unfolding IsEqual_ok_def IsEqual_wit_sel IsZero_wit_sel(1) using iz by simp
  show "eq_out (IsEqual_wit P a b) = (if a mod P = b mod P then 1 else 0)"
    unfolding IsEqual_wit_sel using iz by simp
qed

subsection \<open>Comparator trichotomy\<close>

text \<open>
  C6. Comparator trichotomy under the honest witness computation, for every width \<open>n\<close>
  that the field can hold (\<open>2^(n+1) \<le> P\<close>, as for the width 16 of this circuit): for
  \<open>a, b\<close> in \<open>[0, 2^n)\<close> exactly one of \<open>LessThan(n)(a,b) = 1\<close>, \<open>IsEqual(a,b) = 1\<close> and
  \<open>LessThan(n)(b,a) = 1\<close> holds.
\<close>

theorem comparator_trichotomy:
  assumes "2 ^ (n + 1) \<le> P" "0 \<le> a" "a < 2 ^ n" "0 \<le> b" "b < 2 ^ n"
  shows "(lt_out (LessThan_wit P n a b) = 1 \<and> eq_out (IsEqual_wit P a b) \<noteq> 1
            \<and> lt_out (LessThan_wit P n b a) \<noteq> 1)
       \<or> (lt_out (LessThan_wit P n a b) \<noteq> 1 \<and> eq_out (IsEqual_wit P a b) = 1
            \<and> lt_out (LessThan_wit P n b a) \<noteq> 1)
       \<or> (lt_out (LessThan_wit P n a b) \<noteq> 1 \<and> eq_out (IsEqual_wit P a b) \<noteq> 1
            \<and> lt_out (LessThan_wit P n b a) = 1)"
proof -
  have P: "1 < P" using assms(1) by (rule two_pow_le_gt1)
  have "(2::int) ^ n \<le> 2 ^ (n + 1)" by simp
  then have lt: "a < P" "b < P" using assms by linarith+
  have 1: "lt_out (LessThan_wit P n a b) = 1 \<longleftrightarrow> a < b"
    using LessThan_wit_ok(2)[OF assms(2,3,4,5,1)] by simp
  have 2: "lt_out (LessThan_wit P n b a) = 1 \<longleftrightarrow> b < a"
    using LessThan_wit_ok(2)[OF assms(4,5,2,3,1)] by simp
  have 3: "eq_out (IsEqual_wit P a b) = 1 \<longleftrightarrow> a = b"
    using P assms lt by (intro IsEqual_wit_out)
  show ?thesis unfolding 1 2 3 by linarith
qed

theorem comparator_trichotomy_witness:
  "2 ^ (16 + 1) \<le> bn128 \<and> (0::int) \<le> 5 \<and> (5::int) < 2 ^ 16 \<and> (0::int) \<le> 7 \<and> (7::int) < 2 ^ 16 \<and>
   ((lt_out (LessThan_wit bn128 16 5 7) = 1 \<and> eq_out (IsEqual_wit bn128 5 7) \<noteq> 1
            \<and> lt_out (LessThan_wit bn128 16 7 5) \<noteq> 1)
       \<or> (lt_out (LessThan_wit bn128 16 5 7) \<noteq> 1 \<and> eq_out (IsEqual_wit bn128 5 7) = 1
            \<and> lt_out (LessThan_wit bn128 16 7 5) \<noteq> 1)
       \<or> (lt_out (LessThan_wit bn128 16 5 7) \<noteq> 1 \<and> eq_out (IsEqual_wit bn128 5 7) \<noteq> 1
            \<and> lt_out (LessThan_wit bn128 16 7 5) = 1))"
proof -
  have h: "2 ^ (16 + 1) \<le> bn128" "(0::int) \<le> 5" "(5::int) < 2 ^ 16" "(0::int) \<le> 7" "(7::int) < 2 ^ 16"
    by (simp_all add: bn128_def)
  show ?thesis using h comparator_trichotomy [OF h] by blast
qed

text \<open>
  For a width the field cannot hold the trichotomy fails: in the bn128 field, with
  \<open>n = 253\<close>, \<open>a = 2^253 - 1\<close> and \<open>b = 0\<close>, both \<open>LessThan(a, b)\<close> and \<open>LessThan(b, a)\<close>
  output 1, because \<open>a + 2^n - b\<close> wraps around the modulus.
\<close>

theorem comparator_trichotomy_fails_253:
  "(0::int) \<le> 2 ^ 253 - 1 \<and> (2 ^ 253 - 1 :: int) < 2 ^ 253 \<and> (2 ^ 253 - 1 :: int) < bn128 \<and>
   lt_out (LessThan_wit bn128 253 (2 ^ 253 - 1) 0) = 1 \<and>
   lt_out (LessThan_wit bn128 253 0 (2 ^ 253 - 1)) = 1"
  unfolding LessThan_wit_sel Num2Bits_wit_top
  by (simp add: bn128_def push_bit_eq_mult)

subsection \<open>SimplePrimalityTest\<close>

lemma ModulusCheck_wit_sel:
  "mc_value (ModulusCheck_wit P v m) = v"
  "mc_modulus (ModulusCheck_wit P v m) = m"
  "mc_quotient (ModulusCheck_wit P v m) = v div m"
  "mc_remainder (ModulusCheck_wit P v m) = v mod m"
  "mc_isZero (ModulusCheck_wit P v m) = IsZero_wit P (v mod m)"
  "mc_isNotDivisible (ModulusCheck_wit P v m) = (1 - iz_out (IsZero_wit P (v mod m))) mod P"
  by (simp_all add: ModulusCheck_wit_def Let_def)

lemma ModulusCheck_wit_ok:
  assumes "1 < P" "v mod m = 0 \<or> coprime (v mod m) P"
  shows "ModulusCheck_ok P (ModulusCheck_wit P v m)"
    and "mc_isNotDivisible (ModulusCheck_wit P v m) = (if v mod m = 0 then 0 else 1)"
proof -
  have iz: "IsZero_ok P (IsZero_wit P (v mod m))
            \<and> iz_out (IsZero_wit P (v mod m)) = (if v mod m = 0 then 1 else 0)"
  proof (cases "v mod m = 0")
    case True
    then show ?thesis using IsZero_wit_zero[OF assms(1)] by simp
  next
    case False
    then show ?thesis using IsZero_wit_coprime[OF assms(1) False] assms(2) by simp
  qed
  show "ModulusCheck_ok P (ModulusCheck_wit P v m)"
    unfolding ModulusCheck_ok_def ModulusCheck_wit_sel IsZero_wit_sel(1)
    using iz by simp
  show "mc_isNotDivisible (ModulusCheck_wit P v m) = (if v mod m = 0 then 0 else 1)"
    unfolding ModulusCheck_wit_sel using iz assms(1) by simp
qed

text \<open>A modulus that no table prime divides is coprime to every possible remainder.\<close>

lemma table_coprime:
  assumes "\<forall>t\<in>set primes. \<not> t dvd P" "0 < r" "r \<le> 255"
  shows "coprime r P"
proof -
  let ?g = "gcd r P"
  have g: "0 \<le> ?g" "?g \<noteq> 0" "?g \<le> r" using assms(2) by simp_all
  have "?g = 1"
  proof (rule ccontr)
    assume "?g \<noteq> 1"
    with g have "2 \<le> ?g" "?g \<le> 255" using assms(3) by linarith+
    then obtain t where t: "t \<in> set primes" "t dvd ?g"
      using small_has_table_factor by blast
    then have "t dvd P" by (meson dvd_trans gcd_dvd2)
    with assms(1) t show False by blast
  qed
  then show ?thesis by (simp add: coprime_iff_gcd_eq_1)
qed

lemma fprime_table:
  assumes "fprime P" "251 < P"
  shows "\<forall>t\<in>set primes. \<not> t dvd P"
proof
  fix t assume "t \<in> set primes"
  then have "2 \<le> t" "t \<le> 251" using primes_bounds by auto
  then show "\<not> t dvd P" using assms by (auto simp: fprime_def)
qed

lemma length_accumulate [simp]: "length (accumulate P c cs) = length cs"
  by (induction cs arbitrary: c) (simp_all add: Let_def)

lemma accumulate_nth:
  "i < length cs \<Longrightarrow> accumulate P c cs ! i = ((c # accumulate P c cs) ! i * cs ! i) mod P"
proof (induction cs arbitrary: c i)
  case Nil
  then show ?case by simp
next
  case (Cons x xs)
  show ?case
  proof (cases i)
    case 0
    then show ?thesis by (simp add: Let_def)
  next
    case (Suc j)
    then have "j < length xs" using Cons.prems by simp
    from Cons.IH[OF this, of "(c * x) mod P"] show ?thesis using Suc by (simp add: Let_def)
  qed
qed

lemma accumulate_last:
  assumes "1 < P" "c = 0 \<or> c = 1" "\<forall>x\<in>set cs. x = 0 \<or> x = 1"
  shows "last (c # accumulate P c cs) = (if c = 1 \<and> (\<forall>x\<in>set cs. x = 1) then 1 else 0)"
  using assms(2,3)
proof (induction cs arbitrary: c)
  case Nil
  then show ?case by auto
next
  case (Cons x xs)
  let ?a = "(c * x) mod P"
  have a: "?a = (if c = 1 \<and> x = 1 then 1 else 0)"
    using Cons.prems assms(1) by auto
  then have "?a = 0 \<or> ?a = 1" by auto
  moreover have "\<forall>x\<in>set xs. x = 0 \<or> x = 1" using Cons.prems by simp
  ultimately have "last (?a # accumulate P ?a xs)
      = (if ?a = 1 \<and> (\<forall>x\<in>set xs. x = 1) then 1 else 0)"
    by (rule Cons.IH)
  then show ?case using a by (auto simp: Let_def)
qed

lemma length_primes: "length primes = 54"
  by (simp add: primes_def)

lemma SimplePrimalityTest_wit_sel:
  "spt_n (SimplePrimalityTest_wit P n) = n"
  "spt_modChecks (SimplePrimalityTest_wit P n) = map (\<lambda>t. ModulusCheck_wit P n t) primes"
  "spt_checks (SimplePrimalityTest_wit P n)
     = map mc_isNotDivisible (map (\<lambda>t. ModulusCheck_wit P n t) primes)"
  by (simp_all add: SimplePrimalityTest_wit_def Let_def)

lemma SimplePrimalityTest_wit_ok:
  assumes "1 < P" "\<forall>t\<in>set primes. \<not> t dvd P"
  shows "SimplePrimalityTest_ok P (SimplePrimalityTest_wit P n)"
    and "spt_isPrime (SimplePrimalityTest_wit P n)
           = (if \<forall>t\<in>set primes. n mod t \<noteq> 0 then 1 else 0)"
proof -
  let ?mcs = "map (\<lambda>t. ModulusCheck_wit P n t) primes"
  let ?checks = "map mc_isNotDivisible ?mcs"
  have mc: "ModulusCheck_ok P (ModulusCheck_wit P n t)
            \<and> mc_isNotDivisible (ModulusCheck_wit P n t) = (if n mod t = 0 then 0 else 1)"
    if t: "t \<in> set primes" for t
  proof -
    have tb: "2 \<le> t" "t \<le> 251" using primes_bounds t by auto
    then have r: "0 \<le> n mod t" "n mod t < t" by simp_all
    have "n mod t = 0 \<or> coprime (n mod t) P"
    proof (cases "n mod t = 0")
      case False
      then have "0 < n mod t" "n mod t \<le> 255" using r tb by linarith+
      then show ?thesis using table_coprime[OF assms(2)] by blast
    qed simp
    then show ?thesis using ModulusCheck_wit_ok[OF assms(1), of n t] by simp
  qed
  have chk: "?checks = map (\<lambda>t. if n mod t = 0 then 0 else 1) primes"
    using mc by (simp add: comp_def)
  define chs where "chs = ?checks"
  have "length chs = Suc 53" unfolding chs_def using length_primes by simp
  then obtain c cs where "chs = c # cs" "length cs = 53"
    by (cases chs) auto
  then have ccs: "?checks = c # cs" "length cs = 53" unfolding chs_def by simp_all
  let ?acc = "c # accumulate P c cs"
  have w: "SimplePrimalityTest_wit P n
      = \<lparr> spt_n = n, spt_modChecks = ?mcs, spt_checks = c # cs, spt_accumulated = ?acc,
          spt_isPrime = ?acc ! 53 \<rparr>"
    unfolding SimplePrimalityTest_wit_def Let_def ccs(1) by simp
  have bits: "\<forall>x\<in>set (c # cs). x = 0 \<or> x = 1"
    unfolding ccs(1)[symmetric] chk by auto
  have step: "feq P (?acc ! i) (?acc ! (i - 1) * (c # cs) ! i)" if "i \<in> {1..<54}" for i
  proof -
    from that obtain j where j: "i = Suc j" "j < length cs"
      using ccs(2) by (cases i) auto
    show ?thesis using accumulate_nth[OF j(2), of P c] unfolding j(1) by simp
  qed
  have mcs: "ModulusCheck_ok P (?mcs ! i) \<and> feq P (mc_value (?mcs ! i)) n
             \<and> feq P (mc_modulus (?mcs ! i)) (primes ! i)
             \<and> feq P ((c # cs) ! i) (mc_isNotDivisible (?mcs ! i))" if "i \<in> {0..<54}" for i
  proof -
    have i: "i < length primes" using that length_primes by simp
    then have "primes ! i \<in> set primes" by simp
    then have "ModulusCheck_ok P (ModulusCheck_wit P n (primes ! i))" using mc by blast
    moreover have "(c # cs) ! i = mc_isNotDivisible (ModulusCheck_wit P n (primes ! i))"
      unfolding ccs(1)[symmetric] using i by simp
    ultimately show ?thesis using i by (simp add: ModulusCheck_wit_sel)
  qed
  show "SimplePrimalityTest_ok P (SimplePrimalityTest_wit P n)"
    unfolding SimplePrimalityTest_ok_def w
    using mcs step ccs(2) length_primes by simp
  have "last ?acc = ?acc ! (length ?acc - 1)" by (rule last_conv_nth) simp
  moreover have "length ?acc - 1 = 53" using ccs(2) by simp
  ultimately have "?acc ! 53 = last ?acc" by (simp only:)
  also have "\<dots> = (if c = 1 \<and> (\<forall>x\<in>set cs. x = 1) then 1 else 0)"
    using bits by (intro accumulate_last[OF assms(1)]) auto
  also have "c = 1 \<and> (\<forall>x\<in>set cs. x = 1) \<longleftrightarrow> (\<forall>x\<in>set (c # cs). x = 1)" by simp
  also have "(\<forall>x\<in>set (c # cs). x = 1) \<longleftrightarrow> (\<forall>t\<in>set primes. n mod t \<noteq> 0)"
  proof -
    have "(\<forall>x\<in>set (map (\<lambda>t. if n mod t = 0 then 0 else (1::int)) primes). x = 1)
          \<longleftrightarrow> (\<forall>t\<in>set primes. n mod t \<noteq> 0)"
      by (simp only: set_map ball_simps) (meson zero_neq_one)
    then show ?thesis unfolding ccs(1)[symmetric] chk .
  qed
  finally show "spt_isPrime (SimplePrimalityTest_wit P n)
           = (if \<forall>t\<in>set primes. n mod t \<noteq> 0 then 1 else 0)"
    unfolding w by simp
qed

subsection \<open>The primality policy of the circuit\<close>

text \<open>No table prime divides the bn128 modulus: a Bezout identity with the product of the table.\<close>

lemma member_dvd_prod_list: "t \<in> set xs \<Longrightarrow> t dvd prod_list (xs :: int list)"
  by (induction xs) auto

lemma prod_primes:
  "prod_list primes = 64266330917908644872330635228106713310880186591609208114244758680898150367880703152525200743234420230"
  by (simp add: primes_def)

lemma bn128_bezout:
  "(- 22325895281915191639222395978900350351775056332225472763702386805429286991932030863519095200862616107) * bn128
    + 7603897893066660078084429802206643160847554929286537053897030006470046052274 * prod_list primes = 1"
  by (simp add: prod_primes bn128_def)

lemma bn128_table: "\<forall>t\<in>set primes. \<not> t dvd bn128"
proof (intro ballI notI)
  fix t assume t: "t \<in> set primes" "t dvd bn128"
  then have "t dvd prod_list primes" by (simp add: member_dvd_prod_list)
  with t(2) have "t dvd (- 22325895281915191639222395978900350351775056332225472763702386805429286991932030863519095200862616107) * bn128
    + 7603897893066660078084429802206643160847554929286537053897030006470046052274 * prod_list primes"
    by (intro dvd_add dvd_mult)
  then have "t dvd 1" by (simp only: bn128_bezout)
  moreover have "2 \<le> t" using t(1) primes_bounds by auto
  ultimately show False by simp
qed

lemma bn128_gt1: "1 < bn128"
  by (simp add: bn128_def)

text \<open>The table holds every prime up to 251.\<close>

lemma fprime_in_table:
  assumes "fprime t" "t \<le> 251"
  shows "t \<in> set primes"
proof -
  have t: "1 < t" and nd: "\<And>d. 2 \<le> d \<Longrightarrow> d < t \<Longrightarrow> \<not> d dvd t"
    using assms(1) by (auto simp: fprime_def)
  obtain s where s: "s \<in> set primes" "s dvd t"
    using small_has_table_factor[of t] t assms(2) by auto
  have "2 \<le> s" using s primes_bounds by auto
  moreover have "s \<le> t" using s t by (intro zdvd_imp_le) auto
  ultimately have "s = t" using nd[of s] s by (cases "s < t") auto
  then show ?thesis using s by simp
qed

text \<open>
  C4. Under the honest witness computation, over a field whose modulus no table prime
  divides, \<open>SimplePrimalityTest\<close> outputs \<open>isPrime = 1\<close> for every prime input greater
  than 251, and \<open>isPrime = 0\<close> for every input that has a prime factor of at most 251,
  composite or not: the table primes 2..251 themselves are rejected.
\<close>

theorem SimplePrimalityTest_policy:
  assumes "1 < P" "\<forall>t\<in>set primes. \<not> t dvd P"
  shows "(fprime n \<and> 251 < n \<longrightarrow> spt_isPrime (SimplePrimalityTest_wit P n) = 1)
       \<and> (fprime t \<and> t \<le> 251 \<and> t dvd m \<longrightarrow> spt_isPrime (SimplePrimalityTest_wit P m) = 0)"
proof (intro conjI impI)
  assume n: "fprime n \<and> 251 < n"
  have "\<forall>s\<in>set primes. n mod s \<noteq> 0"
  proof
    fix s assume "s \<in> set primes"
    then have "2 \<le> s" "s < n" using primes_bounds n by auto
    then have "\<not> s dvd n" using n by (auto simp: fprime_def)
    then show "n mod s \<noteq> 0" by (simp add: mod_eq_0_iff_dvd)
  qed
  then show "spt_isPrime (SimplePrimalityTest_wit P n) = 1"
    using SimplePrimalityTest_wit_ok(2)[OF assms, of n] by simp
next
  assume t: "fprime t \<and> t \<le> 251 \<and> t dvd m"
  then have "t \<in> set primes" using fprime_in_table by blast
  moreover have "m mod t = 0" using t by simp
  ultimately have "\<not> (\<forall>s\<in>set primes. m mod s \<noteq> 0)" by (intro notI) (drule bspec, assumption, simp)
  then show "spt_isPrime (SimplePrimalityTest_wit P m) = 0"
    using SimplePrimalityTest_wit_ok(2)[OF assms, of m] by simp
qed

lemma fprime_257: "fprime 257"
  unfolding fprime_def by code_simp

lemma fprime_2: "fprime 2"
  by (simp add: fprime_def)

theorem SimplePrimalityTest_policy_witness:
  "fprime 257 \<and> (251::int) < 257 \<and> spt_isPrime (SimplePrimalityTest_wit bn128 257) = 1 \<and>
   fprime 2 \<and> (2::int) \<le> 251 \<and> (2::int) dvd 32770 \<and>
   spt_isPrime (SimplePrimalityTest_wit bn128 32770) = 0"
  using SimplePrimalityTest_policy [OF bn128_gt1 bn128_table, of 257 2 32770] fprime_257 fprime_2
  by simp

text \<open>
  The prime input 2 (in \<open>[2, 65535]\<close>, square root below 251) is not accepted: the
  first trial division is by 2 itself, and the gadget outputs \<open>isPrime = 0\<close>.
\<close>

theorem SimplePrimalityTest_rejects_2:
  "fprime 2 \<and> (2::int) \<le> 2 \<and> (2::int) \<le> 65535 \<and> (2::int) \<le> 251 * 251 \<and>
   spt_isPrime (SimplePrimalityTest_wit bn128 2) = 0"
proof -
  have "(2::int) mod 2 = 0" by simp
  with two_in_primes have "\<not> (\<forall>s\<in>set primes. (2::int) mod s \<noteq> 0)"
    by (intro notI) (drule bspec, assumption, simp)
  then have "spt_isPrime (SimplePrimalityTest_wit bn128 2) = 0"
    using SimplePrimalityTest_wit_ok(2)[OF bn128_gt1 bn128_table, of 2] by simp
  then show ?thesis using fprime_2 by simp
qed

subsection \<open>A primality certificate (Lucas test)\<close>

lemma mpow_eq: "0 \<le> e \<Longrightarrow> mpow N a e = a ^ nat e mod N"
proof (induction N a e rule: mpow.induct)
  case (1 N a e)
  show ?case
  proof (cases "e \<le> 0")
    case True
    with "1.prems" have "e = 0" by simp
    then show ?thesis by (subst mpow.simps) simp
  next
    case False
    show ?thesis
    proof (cases "e mod 2 = 0")
      case True
      have ih: "mpow N a (e div 2) = a ^ nat (e div 2) mod N"
        using "1.IH"(1)[OF False True] "1.prems" by simp
      have "nat e = nat (e div 2) + nat (e div 2)" using True "1.prems" by auto
      then have "a ^ nat e = a ^ nat (e div 2) * a ^ nat (e div 2)"
        by (metis power_add)
      then have "a ^ nat e mod N = (a ^ nat (e div 2) mod N * (a ^ nat (e div 2) mod N)) mod N"
        by (simp add: mod_mult_eq)
      then show ?thesis using False True ih by (subst mpow.simps) (simp add: Let_def)
    next
      case odd: False
      have ih: "mpow N a (e - 1) = a ^ nat (e - 1) mod N"
        using "1.IH"(2)[OF False odd] False by simp
      have "nat e = Suc (nat (e - 1))" using False by simp
      then have "a ^ nat e = a * a ^ nat (e - 1)" by simp
      then have "a ^ nat e mod N = (a * (a ^ nat (e - 1) mod N)) mod N"
        by (simp add: mod_mult_right_eq)
      then show ?thesis using False odd ih by (subst mpow.simps) simp
    qed
  qed
qed

lemma unit_coprime:
  assumes "(x * y) mod N = 1" "1 < (N::int)"
  shows "coprime x N"
proof (rule coprimeI)
  fix c assume c: "c dvd x" "c dvd N"
  have "x * y = N * ((x * y) div N) + 1" using assms(1) by (metis mult_div_mod_eq)
  then have "1 = x * y - N * ((x * y) div N)" by simp
  moreover have "c dvd x * y - N * ((x * y) div N)" using c by (intro dvd_diff dvd_mult2)
  ultimately show "is_unit c" by simp
qed

lemma prime_list_dvd:
  fixes m :: int
  assumes "\<forall>q\<in>set qs. fprime q" "1 < m" "m dvd prod_list qs"
  shows "\<exists>q\<in>set qs. q dvd m"
  using assms
proof (induction qs)
  case Nil
  then show ?case by simp
next
  case (Cons q qs)
  show ?case
  proof (cases "q dvd m")
    case True
    then show ?thesis by simp
  next
    case False
    then have "m mod q \<noteq> 0" by (simp add: mod_eq_0_iff_dvd)
    then have "coprime m q" using Cons.prems(1) fprime_coprime_mod by simp
    then have "m dvd prod_list qs"
      using Cons.prems(3) by (simp add: coprime_dvd_mult_right_iff)
    then show ?thesis using Cons by simp
  qed
qed

lemma power_one_mod:
  fixes a N :: int
  assumes "a ^ d mod N = 1"
  shows "a ^ (d * m + r) mod N = a ^ r mod N"
proof -
  have "(a ^ d) ^ m mod N = (a ^ d mod N) ^ m mod N" by (simp add: power_mod)
  then have one: "(a ^ d) ^ m mod N = 1 mod N" using assms by simp
  have "a ^ (d * m + r) = (a ^ d) ^ m * a ^ r" by (simp add: power_add power_mult)
  then have "a ^ (d * m + r) mod N = ((a ^ d) ^ m mod N * (a ^ r mod N)) mod N"
    by (simp add: mod_mult_eq)
  also have "\<dots> = (1 mod N * (a ^ r mod N)) mod N" by (simp only: one)
  also have "\<dots> = a ^ r mod N" by (simp add: mod_mult_eq)
  finally show ?thesis .
qed

lemma lucas_order:
  fixes a N :: int
  assumes N: "1 < N" and an: "a ^ nat (N - 1) mod N = 1"
    and pr: "\<forall>q\<in>set qs. fprime q" and pl: "prod_list qs = N - 1"
    and nq: "\<forall>q\<in>set qs. a ^ nat ((N - 1) div q) mod N \<noteq> 1"
    and k: "0 < k" "k < nat (N - 1)"
  shows "a ^ k mod N \<noteq> 1"
proof
  assume ak: "a ^ k mod N = 1"
  define n where "n = nat (N - 1)"
  define Q where "Q = (\<lambda>j. 0 < j \<and> a ^ j mod N = 1)"
  define d where "d = (LEAST j. Q j)"
  have "Q k" using k ak by (simp add: Q_def)
  then have Qd: "Q d" and dk: "d \<le> k" unfolding d_def by (auto intro: LeastI Least_le)
  have dmin: "\<not> Q j" if "j < d" for j using that unfolding d_def by (rule not_less_Least)
  have d0: "0 < d" and ad: "a ^ d mod N = 1" using Qd by (auto simp: Q_def)
  have ddvd: "d dvd j" if "a ^ j mod N = 1" for j
  proof -
    have "a ^ (d * (j div d) + j mod d) mod N = a ^ (j mod d) mod N"
      by (rule power_one_mod[OF ad])
    then have "a ^ j mod N = a ^ (j mod d) mod N" by simp
    then have "a ^ (j mod d) mod N = 1" using that by simp
    moreover have "j mod d < d" using d0 by simp
    ultimately have "\<not> 0 < j mod d" using dmin[of "j mod d"] by (auto simp: Q_def)
    then show ?thesis by auto
  qed
  have "d dvd n" using ddvd an by (simp add: n_def)
  then obtain m where m: "n = d * m" by auto
  have n0: "0 < n" using k by (simp add: n_def)
  have "d < n" using dk k by (simp add: n_def)
  then have m1: "1 < m" using m n0 by (cases m) auto
  have "int m dvd int n" using m by simp
  then have "int m dvd prod_list qs" using pl N by (simp add: n_def)
  then obtain q where q: "q \<in> set qs" "q dvd int m"
    using prime_list_dvd[OF pr, of "int m"] m1 by auto
  have q1: "1 < q" using pr q(1) by (auto simp: fprime_def)
  obtain m' where m': "int m = q * m'" using q(2) by auto
  have "0 \<le> q * m'" unfolding m'[symmetric] by simp
  then have m'0: "0 \<le> m'" using q1 by (simp add: zero_le_mult_iff)
  have "int n = int d * int m" unfolding m by simp
  moreover have "int n = N - 1" using N by (simp add: n_def)
  ultimately have "N - 1 = int d * int m" by simp
  then have "N - 1 = q * (int d * m')" using m' by simp
  then have "(N - 1) div q = int d * m'" using q1 by simp
  then have "nat ((N - 1) div q) = d * nat m'" using m'0 by (simp add: nat_mult_distrib)
  then have "a ^ nat ((N - 1) div q) mod N = a ^ (d * nat m' + 0) mod N" by simp
  also have "\<dots> = a ^ (0::nat) mod N" by (rule power_one_mod[OF ad])
  also have "\<dots> = 1" using N by simp
  finally show False using nq q(1) by simp
qed

lemma lucas_fprime:
  fixes a N :: int
  assumes N: "1 < N" and an: "a ^ nat (N - 1) mod N = 1"
    and pr: "\<forall>q\<in>set qs. fprime q" and pl: "prod_list qs = N - 1"
    and nq: "\<forall>q\<in>set qs. a ^ nat ((N - 1) div q) mod N \<noteq> 1"
  shows "fprime N"
proof -
  define n where "n = nat (N - 1)"
  define f where "f = (\<lambda>i. a ^ i mod N)"
  have ord: "a ^ k mod N \<noteq> 1" if "0 < k" "k < n" for k
    using lucas_order[OF N an pr pl nq, of k] that by (simp add: n_def)
  have an': "a ^ n mod N = 1" using an by (simp add: n_def)
  have inv: "(f i * a ^ (n - i)) mod N = 1" if "i \<le> n" for i
  proof -
    have "a ^ i * a ^ (n - i) = a ^ n" using that by (simp add: power_add[symmetric])
    then have "(a ^ i * a ^ (n - i)) mod N = 1" using an' by simp
    then show ?thesis unfolding f_def by (simp add: mod_mult_left_eq)
  qed
  have neq: "f i \<noteq> f j" if "i < j" "j < n" for i j
  proof
    assume e: "f i = f j"
    have "(f j * a ^ (n - i)) mod N = 1" using inv[of i] that e by simp
    then have "(a ^ j * a ^ (n - i)) mod N = 1" unfolding f_def by (simp add: mod_mult_left_eq)
    moreover have "a ^ j * a ^ (n - i) = a ^ (n * 1 + (j - i))"
    proof -
      have "j + (n - i) = n * 1 + (j - i)" using that by simp
      then show ?thesis by (simp only: power_add[symmetric])
    qed
    moreover have "a ^ (n * 1 + (j - i)) mod N = a ^ (j - i) mod N"
      by (rule power_one_mod[OF an'])
    ultimately have "a ^ (j - i) mod N = 1" by simp
    then show False using ord[of "j - i"] that by simp
  qed
  have inj: "inj_on f {0..<n}"
  proof (rule inj_onI)
    fix i j assume "i \<in> {0..<n}" "j \<in> {0..<n}" "f i = f j"
    then show "i = j" using neq[of i j] neq[of j i] by (cases i j rule: linorder_cases) auto
  qed
  have rng: "f ` {0..<n} \<subseteq> {1..<N}"
  proof
    fix x assume "x \<in> f ` {0..<n}"
    then obtain i where i: "i < n" "x = f i" by auto
    have "f i \<noteq> 0"
    proof
      assume "f i = 0"
      then have "(f i * a ^ (n - i)) mod N = 0" by simp
      then show False using inv[of i] i by simp
    qed
    moreover have "0 \<le> f i" "f i < N" using N by (simp_all add: f_def)
    ultimately show "x \<in> {1..<N}" using i by simp
  qed
  have "card (f ` {0..<n}) = n" using inj by (simp add: card_image)
  moreover have "card {1..<N} = n" by (simp add: n_def)
  ultimately have "f ` {0..<n} = {1..<N}"
    using rng by (intro card_subset_eq) simp_all
  then have cop: "coprime x N" if "x \<in> {1..<N}" for x
  proof -
    have "x \<in> f ` {0..<n}" using \<open>f ` {0..<n} = {1..<N}\<close> that by (simp only:)
    then obtain i where i: "i < n" "x = f i" by auto
    then have "(x * a ^ (n - i)) mod N = 1" using inv[of i] by simp
    then show ?thesis using N by (rule unit_coprime)
  qed
  have "\<not> d dvd N" if "d \<in> {2..<N}" for d
  proof
    assume "d dvd N"
    moreover have "coprime d N" using cop[of d] that by simp
    ultimately have "is_unit d" by (metis coprime_absorb_left)
    then show False using that by simp
  qed
  then show ?thesis using N by (simp add: fprime_def)
qed

text \<open>The same with the powers computed by \<open>mpow\<close>.\<close>

lemma lucas_test:
  assumes "1 < N" "mpow N a (N - 1) = 1" "\<forall>q\<in>set qs. fprime q"
    "prod_list qs = N - 1" "\<forall>q\<in>set qs. mpow N a ((N - 1) div q) \<noteq> 1"
  shows "fprime N"
proof -
  have q0: "0 \<le> (N - 1) div q" if "q \<in> set qs" for q
  proof -
    have "1 < q" using assms(3) that by (auto simp: fprime_def)
    then show ?thesis using assms(1) by (simp add: pos_imp_zdiv_nonneg_iff)
  qed
  have 1: "a ^ nat (N - 1) mod N = 1" using assms(1,2) by (simp add: mpow_eq)
  have 2: "\<forall>q\<in>set qs. a ^ nat ((N - 1) div q) mod N \<noteq> 1"
    using assms(5) q0 by (simp add: mpow_eq)
  show ?thesis by (rule lucas_fprime[OF assms(1) 1 assms(3,4) 2])
qed

lemma table_fprime: "\<forall>t\<in>set primes. fprime t"
  unfolding fprime_def by code_simp

text \<open>A prime above \<open>65535^2\<close>, for the instances below: \<open>4294837741 - 1 = 2^2 * 3 * 5 * 41 * 59 * 127 * 233\<close>.\<close>

lemma fprime_4294837741: "fprime 4294837741"
proof (rule lucas_test[where a = 2 and qs = "[2, 2, 3, 5, 41, 59, 127, 233]"])
  show "(1::int) < 4294837741" by simp
  show "mpow 4294837741 2 (4294837741 - 1) = 1" by code_simp
  show "\<forall>q\<in>set [2, 2, 3, 5, 41, 59, 127, 233]. fprime q"
    using table_fprime by (simp add: primes_def)
  show "prod_list [2, 2, 3, 5, 41, 59, 127, 233] = (4294837741::int) - 1" by simp
  show "\<forall>q\<in>set [2, 2, 3, 5, 41, 59, 127, 233]. mpow 4294837741 2 ((4294837741 - 1) div q) \<noteq> 1"
    by code_simp
qed

subsection \<open>What the comparators force\<close>

lemma LessThan_sound:
  assumes "fprime P" "LessThan_ok P n s"
  obtains v where "0 \<le> v" "v < 2 ^ (n + 1)"
    "(lt_in0 s + 2 ^ n - lt_in1 s) mod P = v mod P"
    "lt_out s mod P = (1 - (v div 2 ^ n) mod 2) mod P"
proof -
  have nb: "Num2Bits_ok P (n + 1) (lt_n2b s)"
    and i: "feq P (n2b_in (lt_n2b s)) (lt_in0 s + push_bit n 1 - lt_in1 s)"
    and out: "feq P (lt_out s) (1 - n2b_out (lt_n2b s) ! n)"
    using assms(2) by (auto simp: LessThan_ok_def)
  obtain v where v: "0 \<le> v" "v < 2 ^ (n + 1)" "n2b_in (lt_n2b s) mod P = v mod P"
    "\<And>i. i < n + 1 \<Longrightarrow> n2b_out (lt_n2b s) ! i mod P = (v div 2 ^ i) mod 2"
    using Num2Bits_sound[OF assms(1) nb] by blast
  have top: "n2b_out (lt_n2b s) ! n mod P = (v div 2 ^ n) mod 2" using v(4)[of n] by simp
  have "lt_out s mod P = (1 - n2b_out (lt_n2b s) ! n) mod P"
    using out by (simp add: feq_def)
  also have "\<dots> = (1 - n2b_out (lt_n2b s) ! n mod P) mod P" by (simp add: mod_simps)
  finally have o: "lt_out s mod P = (1 - (v div 2 ^ n) mod 2) mod P" by (simp only: top)
  have h: "(lt_in0 s + 2 ^ n - lt_in1 s) mod P = v mod P"
    using i v(3) by (simp add: feq_def push_bit_eq_mult)
  show ?thesis by (rule that[OF v(1) v(2) h o])
qed

lemma top_bit_set:
  fixes v :: int
  assumes "0 \<le> v" "(v div 2 ^ n) mod 2 \<noteq> 0"
  shows "2 ^ n \<le> v"
proof (rule ccontr)
  assume "\<not> 2 ^ n \<le> v"
  then have "v div 2 ^ n = 0" using assms(1) by (intro div_pos_pos_trivial) auto
  with assms(2) show False by simp
qed

lemma not_lt_out:
  assumes "1 < P" "g mod P = (1 - l) mod P" "l mod P = (1 - b) mod P" "g mod P \<noteq> 0"
    "b = 0 \<or> b = (1::int)"
  shows "b \<noteq> 0"
proof
  assume "b = 0"
  then have "l mod P = 1 mod P" using assms(3) by simp
  then have "(1 - l) mod P = (1 - 1) mod P" by (intro mod_diff_cong) simp_all
  with assms(2,4) show False by simp
qed

lemma GreaterEqThan_sound:
  assumes "fprime P" "GreaterEqThan_ok P n s" "ge_out s mod P \<noteq> 0"
  obtains v where "2 ^ n \<le> v" "v < 2 ^ (n + 1)"
    "(ge_in0 s + 2 ^ n - ge_in1 s) mod P = v mod P"
proof -
  have P: "1 < P" using assms(1) by (simp add: fprime_def)
  have lt: "LessThan_ok P n (ge_lt s)"
    and i0: "lt_in0 (ge_lt s) mod P = ge_in0 s mod P"
    and i1: "lt_in1 (ge_lt s) mod P = ge_in1 s mod P"
    and out: "ge_out s mod P = (1 - lt_out (ge_lt s)) mod P"
    using assms(2) by (auto simp: GreaterEqThan_ok_def feq_def)
  obtain v where v: "0 \<le> v" "v < 2 ^ (n + 1)"
    "(lt_in0 (ge_lt s) + 2 ^ n - lt_in1 (ge_lt s)) mod P = v mod P"
    "lt_out (ge_lt s) mod P = (1 - (v div 2 ^ n) mod 2) mod P"
    using LessThan_sound[OF assms(1) lt] by blast
  have bit: "(v div 2 ^ n) mod 2 = 0 \<or> (v div 2 ^ n) mod 2 = 1" by auto
  have "(v div 2 ^ n) mod 2 \<noteq> 0"
    by (rule not_lt_out[OF P out v(4) assms(3) bit])
  then have lo: "2 ^ n \<le> v" using v(1) by (intro top_bit_set)
  have "(ge_in0 s + 2 ^ n - ge_in1 s) mod P = (lt_in0 (ge_lt s) + 2 ^ n - lt_in1 (ge_lt s)) mod P"
    using i0 i1 by (intro mod_diff_cong mod_add_cong) simp_all
  then have h: "(ge_in0 s + 2 ^ n - ge_in1 s) mod P = v mod P" using v(3) by simp
  show ?thesis by (rule that[OF lo v(2) h])
qed

lemma LessEqThan_sound:
  assumes "fprime P" "LessEqThan_ok P n s" "le_out s mod P \<noteq> 0"
  obtains v where "2 ^ n \<le> v" "v < 2 ^ (n + 1)"
    "(le_in1 s + 2 ^ n - le_in0 s) mod P = v mod P"
proof -
  have P: "1 < P" using assms(1) by (simp add: fprime_def)
  have lt: "LessThan_ok P n (le_lt s)"
    and i0: "lt_in0 (le_lt s) mod P = le_in1 s mod P"
    and i1: "lt_in1 (le_lt s) mod P = le_in0 s mod P"
    and out: "le_out s mod P = (1 - lt_out (le_lt s)) mod P"
    using assms(2) by (auto simp: LessEqThan_ok_def feq_def)
  obtain v where v: "0 \<le> v" "v < 2 ^ (n + 1)"
    "(lt_in0 (le_lt s) + 2 ^ n - lt_in1 (le_lt s)) mod P = v mod P"
    "lt_out (le_lt s) mod P = (1 - (v div 2 ^ n) mod 2) mod P"
    using LessThan_sound[OF assms(1) lt] by blast
  have bit: "(v div 2 ^ n) mod 2 = 0 \<or> (v div 2 ^ n) mod 2 = 1" by auto
  have "(v div 2 ^ n) mod 2 \<noteq> 0"
    by (rule not_lt_out[OF P out v(4) assms(3) bit])
  then have lo: "2 ^ n \<le> v" using v(1) by (intro top_bit_set)
  have "(le_in1 s + 2 ^ n - le_in0 s) mod P = (lt_in0 (le_lt s) + 2 ^ n - lt_in1 (le_lt s)) mod P"
    using i0 i1 by (intro mod_diff_cong mod_add_cong) simp_all
  then have h: "(le_in1 s + 2 ^ n - le_in0 s) mod P = v mod P" using v(3) by simp
  show ?thesis by (rule that[OF lo v(2) h])
qed

subsection \<open>Bit-decomposition round trip\<close>

text \<open>
  C5. Bit-decomposition round trip. For a field element \<open>x\<close> with \<open>0 \<le> x < 2^n\<close> the
  witness rule \<open>bits[i] = (x >> i) & 1\<close> satisfies all constraints of \<open>Num2Bits(n)\<close> and
  the output of \<open>Bits2Num\<close> is exactly \<open>x\<close>. For a field element \<open>y \<ge> 2^n\<close> of a prime
  field no assignment satisfies the constraints of \<open>Num2Bits(n)\<close> with input \<open>y\<close>.
\<close>

theorem Num2Bits_round_trip:
  "(0 \<le> x \<and> x < 2 ^ n \<and> x < P \<longrightarrow>
      n2b_out (Num2Bits_wit P n x) = map (\<lambda>i. drop_bit i x AND 1) [0..<n] \<and>
      Num2Bits_ok P n (Num2Bits_wit P n x) \<and>
      b2n_out (n2b_n2b (Num2Bits_wit P n x)) = x)
   \<and> (fprime P \<and> 2 ^ n \<le> y \<and> y < P \<longrightarrow> \<not> (\<exists>s. n2b_in s = y \<and> Num2Bits_ok P n s))"
proof (intro conjI impI)
  assume "0 \<le> x \<and> x < 2 ^ n \<and> x < P"
  then show "Num2Bits_ok P n (Num2Bits_wit P n x)"
    and "b2n_out (n2b_n2b (Num2Bits_wit P n x)) = x"
    by (simp_all add: Num2Bits_wit_ok Num2Bits_wit_out)
next
  show "n2b_out (Num2Bits_wit P n x) = map (\<lambda>i. drop_bit i x AND 1) [0..<n]"
    by (rule Num2Bits_wit_sel)
next
  assume h: "fprime P \<and> 2 ^ n \<le> y \<and> y < P"
  show "\<not> (\<exists>s. n2b_in s = y \<and> Num2Bits_ok P n s)"
  proof
    assume "\<exists>s. n2b_in s = y \<and> Num2Bits_ok P n s"
    then obtain s where s: "n2b_in s = y" "Num2Bits_ok P n s" by blast
    obtain v where v: "0 \<le> v" "v < 2 ^ n" "n2b_in s mod P = v mod P"
      using Num2Bits_sound[of P n s] h s(2) by blast
    have "(0::int) \<le> 2 ^ n" by simp
    then have "0 \<le> y" using h by linarith
    then have "y mod P = y" using h by simp
    moreover have "v mod P = v" using v h by simp
    ultimately have "y = v" using v(3) s(1) by simp
    then show False using v h by simp
  qed
qed

theorem Num2Bits_round_trip_witness:
  "(0::int) \<le> 5 \<and> (5::int) < 2 ^ 3 \<and> 5 < bn128 \<and>
   n2b_out (Num2Bits_wit bn128 3 5) = [1, 0, 1] \<and>
   Num2Bits_ok bn128 3 (Num2Bits_wit bn128 3 5) \<and>
   b2n_out (n2b_n2b (Num2Bits_wit bn128 3 5)) = 5 \<and>
   fprime 4294837741 \<and> (2::int) ^ 3 \<le> 9 \<and> (9::int) < 4294837741 \<and>
   \<not> (\<exists>s. n2b_in s = 9 \<and> Num2Bits_ok 4294837741 3 s)"
proof -
  have b: "map (\<lambda>i. drop_bit i (5::int) AND 1) [0..<3] = [1, 0, 1]"
    by (simp add: upt_rec drop_bit_eq_div and_one_eq)
  have 1: "(0::int) \<le> 5 \<and> (5::int) < 2 ^ 3 \<and> 5 < bn128" by (simp add: bn128_def)
  have 2: "fprime 4294837741 \<and> (2::int) ^ 3 \<le> 9 \<and> (9::int) < 4294837741"
    using fprime_4294837741 by simp
  show ?thesis
    using 1 2 b Num2Bits_round_trip [where x = 5 and n = 3 and P = bn128 and y = 9]
      Num2Bits_round_trip [where x = 5 and n = 3 and P = 4294837741 and y = 9]
    by simp
qed

subsection \<open>The range check of the circuit\<close>

lemma mod_mult_nonzero:
  fixes a b P :: int
  assumes "(a * b) mod P \<noteq> 0"
  shows "a mod P \<noteq> 0" and "b mod P \<noteq> 0"
proof -
  have "(a * b) mod P = (a mod P * b) mod P" by (simp add: mod_mult_left_eq)
  with assms show "a mod P \<noteq> 0" by auto
  have "(a * b) mod P = (a * (b mod P)) mod P" by (simp add: mod_mult_right_eq)
  with assms show "b mod P \<noteq> 0" by auto
qed

lemma range_forced:
  assumes P: "fprime P" "2 ^ 17 \<le> P"
    and g: "GreaterEqThan_ok P 16 g" "feq P (ge_in0 g) p" "feq P (ge_in1 g) 32768"
      "ge_out g mod P \<noteq> 0"
    and l: "LessEqThan_ok P 16 l" "feq P (le_in0 l) p" "feq P (le_in1 l) 65535"
      "le_out l mod P \<noteq> 0"
  shows "32768 \<le> p mod P \<and> p mod P \<le> 65535"
proof -
  obtain v where v: "2 ^ 16 \<le> v" "v < 2 ^ (16 + 1)"
    "(ge_in0 g + 2 ^ 16 - ge_in1 g) mod P = v mod P"
    using GreaterEqThan_sound[OF P(1) g(1) g(4)] by blast
  obtain w where w: "2 ^ 16 \<le> w" "w < 2 ^ (16 + 1)"
    "(le_in1 l + 2 ^ 16 - le_in0 l) mod P = w mod P"
    using LessEqThan_sound[OF P(1) l(1) l(4)] by blast
  have "(p + 2 ^ 16 - 32768) mod P = (ge_in0 g + 2 ^ 16 - ge_in1 g) mod P"
    using g(2,3) unfolding feq_def by (intro mod_diff_cong mod_add_cong) simp_all
  then have "(p + 2 ^ 16 - 32768) mod P = v mod P" using v(3) by simp
  then have "(p + 2 ^ 16 - 32768 - (2 ^ 16 - 32768)) mod P = (v - (2 ^ 16 - 32768)) mod P"
    by (intro mod_diff_cong) simp_all
  then have pv: "p mod P = (v - 32768) mod P" by simp
  have "(65535 + 2 ^ 16 - p) mod P = (le_in1 l + 2 ^ 16 - le_in0 l) mod P"
    using l(2,3) unfolding feq_def by (intro mod_diff_cong mod_add_cong) simp_all
  then have "(65535 + 2 ^ 16 - p) mod P = w mod P" using w(3) by simp
  then have "(131071 - (65535 + 2 ^ 16 - p)) mod P = (131071 - w) mod P"
    by (intro mod_diff_cong) simp_all
  then have pw: "p mod P = (131071 - w) mod P" by simp
  have "0 \<le> v - 32768" "v - 32768 < P" using v P(2) by simp_all
  then have 1: "p mod P = v - 32768" using pv by simp
  have "0 \<le> 131071 - w" "131071 - w < P" using w P(2) by simp_all
  then have 2: "p mod P = 131071 - w" using pw by simp
  show ?thesis using 1 2 v w by simp
qed

lemma RSASetupVerifier_okD:
  assumes "RSASetupVerifier_ok P self s"
  shows "feq P (rsa_n s) (rsa_p s * rsa_q s)"
    and "GreaterEqThan_ok P 16 (rsa_geP s)"
    and "feq P (ge_in0 (rsa_geP s)) (rsa_p s)"
    and "feq P (ge_in1 (rsa_geP s)) (min_value self)"
    and "LessEqThan_ok P 16 (rsa_leP s)"
    and "feq P (le_in0 (rsa_leP s)) (rsa_p s)"
    and "feq P (le_in1 (rsa_leP s)) (max_value self)"
    and "feq P (rsa_validP s) (ge_out (rsa_geP s) * le_out (rsa_leP s))"
    and "GreaterEqThan_ok P 16 (rsa_geQ s)"
    and "feq P (ge_in0 (rsa_geQ s)) (rsa_q s)"
    and "feq P (ge_in1 (rsa_geQ s)) (min_value self)"
    and "LessEqThan_ok P 16 (rsa_leQ s)"
    and "feq P (le_in0 (rsa_leQ s)) (rsa_q s)"
    and "feq P (le_in1 (rsa_leQ s)) (max_value self)"
    and "feq P (rsa_validQ s) (ge_out (rsa_geQ s) * le_out (rsa_leQ s))"
    and "feq P (rsa_valid s)
           (rsa_validP s * rsa_validQ s * rsa_different s
              * spt_isPrime (rsa_primeP s) * spt_isPrime (rsa_primeQ s))"
    and "feq P (rsa_valid s) 1"
  using assms unfolding RSASetupVerifier_ok_def by blast+

text \<open>
  C3. In every assignment that satisfies all constraints of \<open>RSASetupVerifier\<close> (built
  for \<open>bit_length = 16\<close>, over a prime field of at least 17 bits), the field elements
  \<open>p\<close> and \<open>q\<close> read as integers lie in \<open>[32768, 65535]\<close>. The comparators decompose
  only the shifted difference \<open>in[0] + 2^16 - in[1]\<close> into 17 bits; the operands
  themselves are not bit-decomposed.
\<close>

theorem range_check_sound:
  assumes "fprime P" "2 ^ 17 \<le> P" "RSASetupVerifier_ok P (init 16) s"
  shows "32768 \<le> rsa_p s mod P \<and> rsa_p s mod P \<le> 65535 \<and>
         32768 \<le> rsa_q s mod P \<and> rsa_q s mod P \<le> 65535"
proof -
  have P1: "1 < P" using assms(1) by (simp add: fprime_def)
  note ok = RSASetupVerifier_okD[OF assms(3)]
  have mm: "min_value (init 16) = 32768" "max_value (init 16) = 65535"
    by (simp_all add: init_def)
  let ?prod = "rsa_validP s * rsa_validQ s * rsa_different s * spt_isPrime (rsa_primeP s)
           * spt_isPrime (rsa_primeQ s)"
  have "?prod mod P = rsa_valid s mod P" using ok(16) by (simp only: feq_def)
  also have "\<dots> = 1 mod P" using ok(17) by (simp only: feq_def)
  finally have "?prod mod P = 1" using P1 by simp
  then have nz: "?prod mod P \<noteq> 0" by simp
  have nz2: "(rsa_validP s * rsa_validQ s) mod P \<noteq> 0"
    by (rule mod_mult_nonzero(1)[OF mod_mult_nonzero(1)[OF mod_mult_nonzero(1)[OF nz]]])
  have vP: "rsa_validP s mod P \<noteq> 0" by (rule mod_mult_nonzero(1)[OF nz2])
  have vQ: "rsa_validQ s mod P \<noteq> 0" by (rule mod_mult_nonzero(2)[OF nz2])
  have "(ge_out (rsa_geP s) * le_out (rsa_leP s)) mod P = rsa_validP s mod P"
    using ok(8) by (simp only: feq_def)
  then have nP: "(ge_out (rsa_geP s) * le_out (rsa_leP s)) mod P \<noteq> 0" using vP by simp
  have "(ge_out (rsa_geQ s) * le_out (rsa_leQ s)) mod P = rsa_validQ s mod P"
    using ok(15) by (simp only: feq_def)
  then have nQ: "(ge_out (rsa_geQ s) * le_out (rsa_leQ s)) mod P \<noteq> 0" using vQ by simp
  have p: "32768 \<le> rsa_p s mod P \<and> rsa_p s mod P \<le> 65535"
    by (rule range_forced[OF assms(1,2) ok(2) ok(3) ok(4)[unfolded mm] mod_mult_nonzero(1)[OF nP]
          ok(5) ok(6) ok(7)[unfolded mm] mod_mult_nonzero(2)[OF nP]])
  have q: "32768 \<le> rsa_q s mod P \<and> rsa_q s mod P \<le> 65535"
    by (rule range_forced[OF assms(1,2) ok(9) ok(10) ok(11)[unfolded mm] mod_mult_nonzero(1)[OF nQ]
          ok(12) ok(13) ok(14)[unfolded mm] mod_mult_nonzero(2)[OF nQ]])
  show ?thesis using p q by simp
qed

subsection \<open>The honest witness of the whole circuit\<close>

lemma RSASetupVerifier_wit_sel:
  "rsa_p (RSASetupVerifier_wit P self p q) = p"
  "rsa_q (RSASetupVerifier_wit P self p q) = q"
  "rsa_n (RSASetupVerifier_wit P self p q) = (p * q) mod P"
  "rsa_geP (RSASetupVerifier_wit P self p q) = GreaterEqThan_wit P 16 p (min_value self mod P)"
  "rsa_leP (RSASetupVerifier_wit P self p q) = LessEqThan_wit P 16 p (max_value self mod P)"
  "rsa_geQ (RSASetupVerifier_wit P self p q) = GreaterEqThan_wit P 16 q (min_value self mod P)"
  "rsa_leQ (RSASetupVerifier_wit P self p q) = LessEqThan_wit P 16 q (max_value self mod P)"
  "rsa_eq (RSASetupVerifier_wit P self p q) = IsEqual_wit P p q"
  "rsa_primeP (RSASetupVerifier_wit P self p q) = SimplePrimalityTest_wit P p"
  "rsa_primeQ (RSASetupVerifier_wit P self p q) = SimplePrimalityTest_wit P q"
  "rsa_validP (RSASetupVerifier_wit P self p q)
     = (ge_out (GreaterEqThan_wit P 16 p (min_value self mod P))
          * le_out (LessEqThan_wit P 16 p (max_value self mod P))) mod P"
  "rsa_validQ (RSASetupVerifier_wit P self p q)
     = (ge_out (GreaterEqThan_wit P 16 q (min_value self mod P))
          * le_out (LessEqThan_wit P 16 q (max_value self mod P))) mod P"
  "rsa_different (RSASetupVerifier_wit P self p q) = (1 - eq_out (IsEqual_wit P p q)) mod P"
  "rsa_valid (RSASetupVerifier_wit P self p q)
     = (rsa_validP (RSASetupVerifier_wit P self p q) * rsa_validQ (RSASetupVerifier_wit P self p q)
          * rsa_different (RSASetupVerifier_wit P self p q)
          * spt_isPrime (SimplePrimalityTest_wit P p)
          * spt_isPrime (SimplePrimalityTest_wit P q)) mod P"
  by (simp_all add: RSASetupVerifier_wit_def Let_def)

lemma RSASetupVerifier_wit_ok:
  assumes P: "2 ^ 17 \<le> P" "\<forall>t\<in>set primes. \<not> t dvd P" "coprime (p - q) P"
    and p: "32768 \<le> p" "p \<le> 65535" "\<forall>t\<in>set primes. p mod t \<noteq> 0"
    and q: "32768 \<le> q" "q \<le> 65535" "\<forall>t\<in>set primes. q mod t \<noteq> 0"
    and pq: "p \<noteq> q"
  shows "RSASetupVerifier_ok P (init 16) (RSASetupVerifier_wit P (init 16) p q)"
    and "rsa_n (RSASetupVerifier_wit P (init 16) p q) = (p * q) mod P"
proof -
  let ?w = "RSASetupVerifier_wit P (init 16) p q"
  have P17: "2 ^ (16 + 1) \<le> P" using P(1) by simp
  have P1: "1 < P" using P(1) by simp
  have mn: "min_value (init 16) mod P = 32768" and mx: "max_value (init 16) mod P = 65535"
    using P(1) by (simp_all add: init_def)
  have mn': "min_value (init 16) = 32768" and mx': "max_value (init 16) = 65535"
    by (simp_all add: init_def)
  have b: "(0::int) \<le> 32768" "(32768::int) < 2 ^ 16" "(0::int) \<le> 65535" "(65535::int) < 2 ^ 16"
    by simp_all
  have pb: "0 \<le> p" "p < 2 ^ 16" using p by simp_all
  have qb: "0 \<le> q" "q < 2 ^ 16" using q by simp_all
  note geP = GreaterEqThan_wit_ok[OF pb b(1,2) P17]
  note leP = LessEqThan_wit_ok[OF pb b(3,4) P17]
  note geQ = GreaterEqThan_wit_ok[OF qb b(1,2) P17]
  note leQ = LessEqThan_wit_ok[OF qb b(3,4) P17]
  have gePo: "ge_out (GreaterEqThan_wit P 16 p 32768) = 1" using geP(2) p by simp
  have lePo: "le_out (LessEqThan_wit P 16 p 65535) = 1" using leP(2) p by simp
  have geQo: "ge_out (GreaterEqThan_wit P 16 q 32768) = 1" using geQ(2) q by simp
  have leQo: "le_out (LessEqThan_wit P 16 q 65535) = 1" using leQ(2) q by simp
  have ne: "p mod P \<noteq> q mod P" using pb qb p q pq P(1) by simp
  have eq: "IsEqual_ok P (IsEqual_wit P p q)" "eq_out (IsEqual_wit P p q) = 0"
    using IsEqual_wit_ok[OF P1, of p q] P(3) ne by simp_all
  note sP = SimplePrimalityTest_wit_ok[OF P1 P(2), of p]
  note sQ = SimplePrimalityTest_wit_ok[OF P1 P(2), of q]
  have sPo: "spt_isPrime (SimplePrimalityTest_wit P p) = 1" using sP(2) p(3) by simp
  have sQo: "spt_isPrime (SimplePrimalityTest_wit P q) = 1" using sQ(2) q(3) by simp
  have vP: "rsa_validP ?w = 1" unfolding RSASetupVerifier_wit_sel mn mx gePo lePo using P1 by simp
  have vQ: "rsa_validQ ?w = 1" unfolding RSASetupVerifier_wit_sel mn mx geQo leQo using P1 by simp
  have df: "rsa_different ?w = 1" unfolding RSASetupVerifier_wit_sel eq(2) using P1 by simp
  have va: "rsa_valid ?w = 1" unfolding RSASetupVerifier_wit_sel(14) vP vQ df sPo sQo using P1 by simp
  show "rsa_n ?w = (p * q) mod P" by (rule RSASetupVerifier_wit_sel)
  show "RSASetupVerifier_ok P (init 16) ?w"
    unfolding RSASetupVerifier_ok_def
  proof (intro conjI)
    show "feq P (rsa_n ?w) (rsa_p ?w * rsa_q ?w)"
      unfolding RSASetupVerifier_wit_sel by simp
    show "GreaterEqThan_ok P 16 (rsa_geP ?w)" unfolding RSASetupVerifier_wit_sel mn by (rule geP(1))
    show "feq P (ge_in0 (rsa_geP ?w)) (rsa_p ?w)"
      unfolding RSASetupVerifier_wit_sel GreaterEqThan_wit_sel by simp
    show "feq P (ge_in1 (rsa_geP ?w)) (min_value (init 16))"
      unfolding RSASetupVerifier_wit_sel GreaterEqThan_wit_sel by simp
    show "LessEqThan_ok P 16 (rsa_leP ?w)" unfolding RSASetupVerifier_wit_sel mx by (rule leP(1))
    show "feq P (le_in0 (rsa_leP ?w)) (rsa_p ?w)"
      unfolding RSASetupVerifier_wit_sel LessEqThan_wit_sel by simp
    show "feq P (le_in1 (rsa_leP ?w)) (max_value (init 16))"
      unfolding RSASetupVerifier_wit_sel LessEqThan_wit_sel by simp
    show "feq P (rsa_validP ?w) (ge_out (rsa_geP ?w) * le_out (rsa_leP ?w))"
      unfolding RSASetupVerifier_wit_sel by simp
    show "GreaterEqThan_ok P 16 (rsa_geQ ?w)" unfolding RSASetupVerifier_wit_sel mn by (rule geQ(1))
    show "feq P (ge_in0 (rsa_geQ ?w)) (rsa_q ?w)"
      unfolding RSASetupVerifier_wit_sel GreaterEqThan_wit_sel by simp
    show "feq P (ge_in1 (rsa_geQ ?w)) (min_value (init 16))"
      unfolding RSASetupVerifier_wit_sel GreaterEqThan_wit_sel by simp
    show "LessEqThan_ok P 16 (rsa_leQ ?w)" unfolding RSASetupVerifier_wit_sel mx by (rule leQ(1))
    show "feq P (le_in0 (rsa_leQ ?w)) (rsa_q ?w)"
      unfolding RSASetupVerifier_wit_sel LessEqThan_wit_sel by simp
    show "feq P (le_in1 (rsa_leQ ?w)) (max_value (init 16))"
      unfolding RSASetupVerifier_wit_sel LessEqThan_wit_sel by simp
    show "feq P (rsa_validQ ?w) (ge_out (rsa_geQ ?w) * le_out (rsa_leQ ?w))"
      unfolding RSASetupVerifier_wit_sel by simp
    show "IsEqual_ok P (rsa_eq ?w)" unfolding RSASetupVerifier_wit_sel by (rule eq(1))
    show "feq P (eq_in0 (rsa_eq ?w)) (rsa_p ?w)"
      unfolding RSASetupVerifier_wit_sel IsEqual_wit_sel by simp
    show "feq P (eq_in1 (rsa_eq ?w)) (rsa_q ?w)"
      unfolding RSASetupVerifier_wit_sel IsEqual_wit_sel by simp
    show "feq P (rsa_different ?w) (1 - eq_out (rsa_eq ?w))"
      unfolding RSASetupVerifier_wit_sel by simp
    show "SimplePrimalityTest_ok P (rsa_primeP ?w)" unfolding RSASetupVerifier_wit_sel by (rule sP(1))
    show "feq P (spt_n (rsa_primeP ?w)) (rsa_p ?w)"
      unfolding RSASetupVerifier_wit_sel SimplePrimalityTest_wit_sel by simp
    show "SimplePrimalityTest_ok P (rsa_primeQ ?w)" unfolding RSASetupVerifier_wit_sel by (rule sQ(1))
    show "feq P (spt_n (rsa_primeQ ?w)) (rsa_q ?w)"
      unfolding RSASetupVerifier_wit_sel SimplePrimalityTest_wit_sel by simp
    show "feq P (rsa_valid ?w)
       (rsa_validP ?w * rsa_validQ ?w * rsa_different ?w
          * spt_isPrime (rsa_primeP ?w) * spt_isPrime (rsa_primeQ ?w))"
      unfolding RSASetupVerifier_wit_sel(9,10,14) by simp
    show "feq P (rsa_valid ?w) 1" unfolding va by simp
  qed
qed

subsection \<open>The circuit on admissible inputs\<close>

text \<open>
  C1. Over a prime field with modulus above \<open>65535^2\<close>: for all \<open>p, q\<close> in
  \<open>[2^15, 2^16 - 1]\<close> that pass trial division by every table prime, with \<open>p \<noteq> q\<close>, the
  witness computed from \<open>(p, q)\<close> satisfies every constraint of \<open>RSASetupVerifier\<close>, and
  its output signal \<open>n\<close> is the integer product \<open>p * q\<close>.
\<close>

theorem RSASetupVerifier_complete:
  assumes "fprime P" "65535 * 65535 < P"
    and "32768 \<le> p" "p \<le> 65535" "32768 \<le> q" "q \<le> 65535"
    and "\<forall>t\<in>set primes. p mod t \<noteq> 0" "\<forall>t\<in>set primes. q mod t \<noteq> 0" "p \<noteq> q"
  shows "RSASetupVerifier_ok P (init 16) (RSASetupVerifier_wit P (init 16) p q) \<and>
         rsa_n (RSASetupVerifier_wit P (init 16) p q) = p * q"
proof -
  have P17: "2 ^ 17 \<le> P" using assms(2) by simp
  have tab: "\<forall>t\<in>set primes. \<not> t dvd P"
    using assms(1,2) by (intro fprime_table) simp_all
  have "p mod P \<noteq> q mod P" using assms(2-6,9) by simp
  then have "(p - q) mod P \<noteq> 0" by (simp add: diff_mod_zero_iff)
  then have cop: "coprime (p - q) P" by (rule fprime_coprime_mod[OF assms(1)])
  have "p * q \<le> 65535 * 65535" using assms(3-6) by (intro mult_mono) simp_all
  moreover have "0 \<le> p * q" using assms(3,5) by simp
  ultimately have n: "(p * q) mod P = p * q" using assms(2) by simp
  show ?thesis
    using RSASetupVerifier_wit_ok[OF P17 tab cop assms(3,4,7) assms(5,6,8) assms(9)] n
    by simp
qed

theorem RSASetupVerifier_complete_witness:
  "fprime 4294837741 \<and> (65535::int) * 65535 < 4294837741 \<and>
   (32768::int) \<le> 32771 \<and> (32771::int) \<le> 65535 \<and> (32768::int) \<le> 32779 \<and> (32779::int) \<le> 65535 \<and>
   (32771::int) \<noteq> 32779 \<and>
   RSASetupVerifier_ok 4294837741 (init 16) (RSASetupVerifier_wit 4294837741 (init 16) 32771 32779) \<and>
   rsa_n (RSASetupVerifier_wit 4294837741 (init 16) 32771 32779) = 32771 * 32779"
proof -
  have t1: "\<forall>t\<in>set primes. (32771::int) mod t \<noteq> 0" by (simp add: primes_def)
  have t2: "\<forall>t\<in>set primes. (32779::int) mod t \<noteq> 0" by (simp add: primes_def)
  show ?thesis
    using RSASetupVerifier_complete [OF fprime_4294837741 _ _ _ _ _ t1 t2]
      fprime_4294837741 by simp
qed

subsection \<open>Concrete instances\<close>

lemma tab_32771: "\<forall>t\<in>set primes. (32771::int) mod t \<noteq> 0"
  by (simp add: primes_def)

lemma tab_32779: "\<forall>t\<in>set primes. (32779::int) mod t \<noteq> 0"
  by (simp add: primes_def)

lemma honest_bn128:
  "RSASetupVerifier_ok bn128 (init 16) (RSASetupVerifier_wit bn128 (init 16) 32771 32779)"
  "rsa_n (RSASetupVerifier_wit bn128 (init 16) 32771 32779) = 1074200609"
proof -
  have P17: "2 ^ 17 \<le> bn128" by (simp add: bn128_def)
  have "coprime 8 bn128" by (rule table_coprime[OF bn128_table]) simp_all
  then have cop: "coprime (32771 - 32779) bn128" by simp
  note w = RSASetupVerifier_wit_ok[OF P17 bn128_table cop _ _ tab_32771 _ _ tab_32779]
  show "RSASetupVerifier_ok bn128 (init 16) (RSASetupVerifier_wit bn128 (init 16) 32771 32779)"
    by (rule w(1)) simp_all
  have "rsa_n (RSASetupVerifier_wit bn128 (init 16) 32771 32779) = (32771 * 32779) mod bn128"
    by (rule w(2)) simp_all
  then show "rsa_n (RSASetupVerifier_wit bn128 (init 16) 32771 32779) = 1074200609"
    by (simp add: bn128_def)
qed

text \<open>
  C9. For \<open>p = 32771\<close> and \<open>q = 32779\<close> the honest witness satisfies the circuit over the
  bn128 field, and its public output is \<open>n = 32771 * 32779 = 1074200609\<close>.
\<close>

theorem RSASetupVerifier_32771_32779:
  "RSASetupVerifier_ok bn128 (init 16) (RSASetupVerifier_wit bn128 (init 16) 32771 32779) \<and>
   rsa_n (RSASetupVerifier_wit bn128 (init 16) 32771 32779) = 1074200609"
  using honest_bn128 by simp

text \<open>The output is not the number 1074004409.\<close>

theorem RSASetupVerifier_32771_32779_not_1074004409:
  "rsa_n (RSASetupVerifier_wit bn128 (init 16) 32771 32779) \<noteq> 1074004409 \<and>
   (32771::int) * 32779 \<noteq> 1074004409"
  using honest_bn128(2) by simp

lemma honest_4294837741:
  "RSASetupVerifier_ok 4294837741 (init 16) (RSASetupVerifier_wit 4294837741 (init 16) 32771 32779)"
proof -
  have P17: "(2::int) ^ 17 \<le> 4294837741" by simp
  have tab: "\<forall>t\<in>set primes. \<not> t dvd 4294837741"
    by (rule fprime_table[OF fprime_4294837741]) simp
  have "coprime 8 (4294837741::int)" by (rule table_coprime[OF tab]) simp_all
  then have cop: "coprime (32771 - 32779) (4294837741::int)" by simp
  show ?thesis
    by (rule RSASetupVerifier_wit_ok(1)[OF P17 tab cop _ _ tab_32771 _ _ tab_32779]) simp_all
qed

theorem range_check_sound_witness:
  "fprime 4294837741 \<and> (2::int) ^ 17 \<le> 4294837741 \<and>
   RSASetupVerifier_ok 4294837741 (init 16) (RSASetupVerifier_wit 4294837741 (init 16) 32771 32779) \<and>
   32768 \<le> rsa_p (RSASetupVerifier_wit 4294837741 (init 16) 32771 32779) mod 4294837741 \<and>
   rsa_p (RSASetupVerifier_wit 4294837741 (init 16) 32771 32779) mod 4294837741 \<le> 65535 \<and>
   32768 \<le> rsa_q (RSASetupVerifier_wit 4294837741 (init 16) 32771 32779) mod 4294837741 \<and>
   rsa_q (RSASetupVerifier_wit 4294837741 (init 16) 32771 32779) mod 4294837741 \<le> 65535"
proof -
  have P17: "(2::int) ^ 17 \<le> 4294837741" by simp
  show ?thesis
    using range_check_sound [OF fprime_4294837741 P17 honest_4294837741]
      fprime_4294837741 honest_4294837741 P17 by blast
qed

text \<open>
  The comparators do not bit-decompose their operands: \<open>GreaterEqThan(16)\<close>, with
  \<open>in[1] = 32768\<close> as in the circuit, is satisfied with \<open>out = 1\<close> by the operand
  \<open>in[0] = 98303\<close>, which does not fit into 16 bits.
\<close>

theorem GreaterEqThan_operand_not_decomposed:
  "GreaterEqThan_ok bn128 16 (GreaterEqThan_wit bn128 16 98303 32768) \<and>
   ge_in0 (GreaterEqThan_wit bn128 16 98303 32768) = 98303 \<and>
   ge_in1 (GreaterEqThan_wit bn128 16 98303 32768) = 32768 \<and>
   ge_out (GreaterEqThan_wit bn128 16 98303 32768) = 1 \<and>
   (2::int) ^ 16 \<le> 98303"
proof -
  have y: "(98303 + push_bit 16 1 - 32768) mod bn128 = (131071::int)"
    by (simp add: bn128_def push_bit_eq_mult)
  have nb: "Num2Bits_ok bn128 (16 + 1) (Num2Bits_wit bn128 (16 + 1) 131071)"
    by (rule Num2Bits_wit_ok) simp_all
  have top: "n2b_out (Num2Bits_wit bn128 (16 + 1) 131071) ! 16 = 1"
    unfolding Num2Bits_wit_top by simp
  have lt: "LessThan_ok bn128 16 (LessThan_wit bn128 16 98303 32768)"
    unfolding LessThan_ok_def LessThan_wit_sel Num2Bits_wit_sel(1) y top
    using nb by (simp add: push_bit_eq_mult bn128_def feq_def)
  have lo: "lt_out (LessThan_wit bn128 16 98303 32768) = 0"
    unfolding LessThan_wit_sel y top by (simp add: bn128_def)
  have ok: "GreaterEqThan_ok bn128 16 (GreaterEqThan_wit bn128 16 98303 32768)"
    unfolding GreaterEqThan_ok_def GreaterEqThan_wit_sel LessThan_wit_sel(1,2)
    using lt by simp
  have out: "ge_out (GreaterEqThan_wit bn128 16 98303 32768) = 1"
    unfolding GreaterEqThan_wit_sel lo by (simp add: bn128_def)
  show ?thesis using ok out by (simp add: GreaterEqThan_wit_sel)
qed

end
